theory Spec2Isabelle
  imports Complex_Main
begin

section \<open>Report documents\<close>

text \<open>
  A report is one JSON document with the schema of the ingestion module
  (\<^verbatim>\<open>dashboard/backend/ingest.py\<close>). Every key of a JSON object is either
  absent, present with the value \<^verbatim>\<open>null\<close>, or present with a value of the
  schema's type. Python's \<^verbatim>\<open>d.get(k)\<close> yields \<^verbatim>\<open>None\<close> in the first two
  cases; \<^verbatim>\<open>d.get(k, dflt)\<close> yields the default only when the key is absent.
  Strings are lists of characters, integers are unbounded, and floating point
  numbers, which ingestion only copies, are carried as rationals.
\<close>

datatype 'a field = Absent | Null | Val 'a

fun dict_get :: "'a field \<Rightarrow> 'a option" where
  "dict_get (Val v) = Some v"
| "dict_get Null = None"
| "dict_get Absent = None"

fun dict_get_default :: "'a field \<Rightarrow> 'a \<Rightarrow> 'a option" where
  "dict_get_default (Val v) d = Some v"
| "dict_get_default Null d = None"
| "dict_get_default Absent d = Some d"

text \<open>Truth value of an optional string and of an optional list: \<^verbatim>\<open>None\<close> and
  the empty sequence are false.\<close>

fun truthy :: "'a list option \<Rightarrow> bool" where
  "truthy None = False"
| "truthy (Some xs) = (xs \<noteq> [])"

datatype error =
  OSError | JSONDecodeError | KeyError | AttributeError | TypeError | IntegrityError

record raw_step =
  rs_step :: "int field"
  rs_phase :: "string field"
  rs_tool :: "string field"

record raw_data_section =
  rd_steps :: "raw_step list field"

record failure_detail =
  fd_step :: "int field"
  fd_build_phase :: "string field"
  fd_phase :: "string field"
  fd_category :: "string field"
  fd_error :: "string field"
  fd_exit_code :: "int field"

section \<open>Derivation of per-step attributes\<close>

text \<open>\<^verbatim>\<open>for x in v\<close> over the value of \<^verbatim>\<open>d.get(k, [])\<close>: a \<^verbatim>\<open>null\<close> value is
  not iterable.\<close>

fun iterate :: "'a list field \<Rightarrow> error + 'a list" where
  "iterate Absent = Inr []"
| "iterate Null = Inl TypeError"
| "iterate (Val xs) = Inr xs"

definition get_raw_steps_for_step_number ::
  "raw_data_section \<Rightarrow> int option \<Rightarrow> error + raw_step list" where
  "get_raw_steps_for_step_number raw_data step_number =
     (case iterate (rd_steps raw_data) of
        Inl e \<Rightarrow> Inl e
      | Inr steps \<Rightarrow> Inr [s \<leftarrow> steps. dict_get (rs_step s) = step_number])"

text \<open>\<^verbatim>\<open>list(dict.fromkeys(xs))\<close>: the keys of a dictionary in insertion order; a
  key already present keeps its place.\<close>

definition fromkeys :: "'a list \<Rightarrow> 'a list" where
  "fromkeys xs = foldl (\<lambda>ks x. if x \<in> set ks then ks else ks @ [x]) [] xs"

text \<open>\<^verbatim>\<open>sep.join(xs)\<close>.\<close>

fun join :: "string \<Rightarrow> string list \<Rightarrow> string" where
  "join sep [] = []"
| "join sep [x] = x"
| "join sep (x # y # ys) = x @ sep @ join sep (y # ys)"

definition extract_phase_from_raw_steps :: "raw_step list \<Rightarrow> string option" where
  "extract_phase_from_raw_steps raw_steps =
     (if raw_steps = [] then None
      else
        let phases = [the (dict_get (rs_phase s)). s \<leftarrow> raw_steps, truthy (dict_get (rs_phase s))]
        in if phases = [] then None
           else
             let unique_phases = fromkeys phases
             in if length unique_phases = 1 then Some (hd unique_phases)
                else Some (join '','' unique_phases))"

text \<open>\<^verbatim>\<open>collections.Counter(xs)\<close>: counts by key, keys in insertion order.\<close>

fun counter_add :: "('a \<times> nat) list \<Rightarrow> 'a \<Rightarrow> ('a \<times> nat) list" where
  "counter_add [] x = [(x, 1)]"
| "counter_add ((k, c) # kcs) x =
     (if k = x then (k, c + 1) # kcs else (k, c) # counter_add kcs x)"

definition Counter :: "'a list \<Rightarrow> ('a \<times> nat) list" where
  "Counter xs = foldl counter_add [] xs"

text \<open>\<^verbatim>\<open>most_common(1)\<close> is \<^verbatim>\<open>max(items, key=count)\<close>: the first item, in
  iteration order, among those with the greatest count.\<close>

fun max_by_count :: "('a \<times> nat) \<Rightarrow> ('a \<times> nat) list \<Rightarrow> ('a \<times> nat)" where
  "max_by_count best [] = best"
| "max_by_count best (x # xs) = max_by_count (if snd best < snd x then x else best) xs"

fun most_common_1 :: "('a \<times> nat) list \<Rightarrow> ('a \<times> nat) list" where
  "most_common_1 [] = []"
| "most_common_1 (x # xs) = [max_by_count x xs]"

definition extract_tool_from_raw_steps :: "raw_step list \<Rightarrow> string option" where
  "extract_tool_from_raw_steps raw_steps =
     (if raw_steps = [] then None
      else
        let tools = [the (dict_get (rs_tool s)). s \<leftarrow> raw_steps, truthy (dict_get (rs_tool s))]
        in if tools = [] then None
           else
             let tool_counts = Counter tools
             in if tool_counts = [] then None
                else Some (fst (hd (most_common_1 tool_counts))))"

definition get_failures_for_step ::
  "failure_detail list \<Rightarrow> int option \<Rightarrow> failure_detail list" where
  "get_failures_for_step failures_details step_number =
     [f \<leftarrow> failures_details. dict_get (fd_step f) = step_number]"

text \<open>The error summary of a step (the two lines after the comment
  \<^verbatim>\<open>Build errors summary\<close>): \<^verbatim>\<open>s[:1000]\<close> keeps the first 1000 characters.\<close>

definition errors_summary_of :: "failure_detail list \<Rightarrow> string option" where
  "errors_summary_of step_failures =
     (let error_messages =
            [the (dict_get_default (fd_error f) []). f \<leftarrow> step_failures, truthy (dict_get (fd_error f))]
      in if error_messages = [] then None
         else Some (take 1000 (join '' | '' error_messages)))"

section \<open>Reference notions for the derived attributes\<close>

text \<open>The distinct elements of a list in the order of their first appearance.\<close>

primrec first_seen :: "'a list \<Rightarrow> 'a list" where
  "first_seen [] = []"
| "first_seen (x # xs) = x # [y \<leftarrow> first_seen xs. y \<noteq> x]"

text \<open>The value of a key as a list: the value when it is present, not null and not
  empty, nothing otherwise.\<close>

fun nonempty_value :: "'a list field \<Rightarrow> 'a list list" where
  "nonempty_value (Val s) = (if s = [] then [] else [s])"
| "nonempty_value Null = []"
| "nonempty_value Absent = []"

text \<open>The derived phase read word for word: nothing without sub-steps, the common
  value when the sub-steps share one phase value, and otherwise the distinct phase
  values in order of first appearance, joined by commas. A sub-step without a phase
  contributes no value to the joined text.\<close>

definition phase_as_claimed :: "raw_step list \<Rightarrow> string option" where
  "phase_as_claimed subs =
     (if subs = [] then None
      else
        let vals = map (\<lambda>s. dict_get (rs_phase s)) subs
        in if list_all (\<lambda>v. v = hd vals) vals then hd vals
           else Some (join '','' (first_seen
                  (concat (map (\<lambda>v. case v of None \<Rightarrow> [] | Some p \<Rightarrow> [p]) vals)))))"

section \<open>Report sections\<close>

record summary_section =
  sm_prompt :: "string field"
  sm_status :: "string field"
  sm_duration_minutes :: "rat field"
  sm_total_steps :: "int field"
  sm_passed_steps :: "int field"
  sm_failed_steps :: "int field"
  sm_total_retries :: "int field"
  sm_replan_checkpoints :: "int field"
  sm_replans_triggered :: "int field"
  sm_success_rate :: "rat field"

record tools_config_section =
  tc_planner :: "string field"
  tc_implementer :: "string field"
  tc_verifier :: "string field"
  tc_models_used :: "string list field"

record supabase_specific_section =
  sb_rls_issues :: "int field"
  sb_migration_issues :: "int field"
  sb_edge_function_issues :: "int field"
  sb_auth_issues :: "int field"

record token_usage_section =
  tu_total_input_tokens :: "int field"
  tu_total_output_tokens :: "int field"
  tu_total_cache_read_tokens :: "int field"
  tu_total_cache_creation_tokens :: "int field"
  tu_total_cost_usd :: "rat field"

record step_outcome =
  so_step :: "int field"
  so_build_phase :: "string field"
  so_final_verdict :: "string field"
  so_attempts :: "int field"
  so_retries :: "int field"
  so_duration_seconds :: "rat field"
  so_resolution_actions :: "string list field"
  so_input_tokens :: "int field"
  so_output_tokens :: "int field"
  so_cost_usd :: "rat field"

record failures_section =
  fs_details :: "failure_detail list field"

record web_search =
  ws_step_id :: "string field"
  ws_query :: "string field"
  ws_count :: "int field"
  ws_timestamp :: "string field"

record report =
  rp_run_id :: "string field"
  rp_generated_at :: "string field"
  rp_summary :: "summary_section field"
  rp_tools_config :: "tools_config_section field"
  rp_supabase_specific :: "supabase_specific_section field"
  rp_token_usage :: "token_usage_section field"
  rp_raw_data :: "raw_data_section field"
  rp_step_outcomes :: "step_outcome list field"
  rp_failures :: "failures_section field"
  rp_web_searches :: "web_search list field"

text \<open>The empty dictionary \<^verbatim>\<open>{}\<close> read as each kind of section.\<close>

definition empty_summary :: summary_section where
  "empty_summary =
     \<lparr>sm_prompt = Absent, sm_status = Absent, sm_duration_minutes = Absent,
      sm_total_steps = Absent, sm_passed_steps = Absent, sm_failed_steps = Absent,
      sm_total_retries = Absent, sm_replan_checkpoints = Absent,
      sm_replans_triggered = Absent, sm_success_rate = Absent\<rparr>"

definition empty_tools_config :: tools_config_section where
  "empty_tools_config =
     \<lparr>tc_planner = Absent, tc_implementer = Absent, tc_verifier = Absent,
      tc_models_used = Absent\<rparr>"

definition empty_supabase_specific :: supabase_specific_section where
  "empty_supabase_specific =
     \<lparr>sb_rls_issues = Absent, sb_migration_issues = Absent,
      sb_edge_function_issues = Absent, sb_auth_issues = Absent\<rparr>"

definition empty_token_usage :: token_usage_section where
  "empty_token_usage =
     \<lparr>tu_total_input_tokens = Absent, tu_total_output_tokens = Absent,
      tu_total_cache_read_tokens = Absent, tu_total_cache_creation_tokens = Absent,
      tu_total_cost_usd = Absent\<rparr>"

definition empty_raw_data :: raw_data_section where
  "empty_raw_data = \<lparr>rd_steps = Absent\<rparr>"

definition empty_failures :: failures_section where
  "empty_failures = \<lparr>fs_details = Absent\<rparr>"

text \<open>A section bound by \<^verbatim>\<open>sec = data.get(k, {})\<close> and then read with
  \<^verbatim>\<open>sec.get(...)\<close>: on a \<^verbatim>\<open>null\<close> section the read raises
  \<^verbatim>\<open>AttributeError\<close>.\<close>

fun section_get :: "'s field \<Rightarrow> 's \<Rightarrow> error + 's" where
  "section_get Absent dflt = Inr dflt"
| "section_get Null dflt = Inl AttributeError"
| "section_get (Val s) dflt = Inr s"

text \<open>What a file holds when it is opened and parsed by \<^verbatim>\<open>json.load\<close>: it
  cannot be read, it is not JSON, it is JSON but not an object, or it is a
  report object.\<close>

datatype file_content = Unreadable | Invalid_JSON | Not_An_Object | Document report

text \<open>A candidate file, with the reading of the clock at the moment it is
  ingested.\<close>

record candidate =
  content :: file_content
  clock :: string

fun json_load :: "file_content \<Rightarrow> error + report option" where
  "json_load Unreadable = Inl OSError"
| "json_load Invalid_JSON = Inl JSONDecodeError"
| "json_load Not_An_Object = Inr None"
| "json_load (Document data) = Inr (Some data)"

section \<open>The store\<close>

record run_row =
  r_run_id :: "string option"
  r_generated_at :: "string option"
  r_prompt :: "string option"
  r_status :: "string option"
  r_duration_minutes :: "rat option"
  r_total_steps :: "int option"
  r_passed_steps :: "int option"
  r_failed_steps :: "int option"
  r_total_retries :: "int option"
  r_replan_checkpoints :: "int option"
  r_replans_triggered :: "int option"
  r_success_rate :: "rat option"
  r_planner :: "string option"
  r_implementer :: "string option"
  r_verifier :: "string option"
  r_models_used :: "string list option"
  r_rls_issues :: "int option"
  r_migration_issues :: "int option"
  r_edge_function_issues :: "int option"
  r_auth_issues :: "int option"
  r_total_input_tokens :: "int option"
  r_total_output_tokens :: "int option"
  r_total_cache_read_tokens :: "int option"
  r_total_cache_creation_tokens :: "int option"
  r_total_cost_usd :: "rat option"
  r_ingested_at :: "string option"
  r_classified_at :: "string option"

record step_row =
  s_id :: "string option"
  s_run_id :: "string option"
  s_step_number :: "int option"
  s_build_phase :: "string option"
  s_phase :: "string option"
  s_tool :: "string option"
  s_final_verdict :: "string option"
  s_attempts :: "int option"
  s_retries :: "int option"
  s_duration_seconds :: "rat option"
  s_resolution_actions :: "string list option"
  s_error_categories :: "string set option"
  s_errors_summary :: "string option"
  s_classification :: "string option"
  s_classification_confidence :: "rat option"
  s_classification_reasoning :: "string option"
  s_classification_evidence :: "string option"
  s_approach_changed :: "bool option"
  s_same_file_repeated :: "bool option"
  s_error_category_stable :: "bool option"
  s_input_tokens :: "int option"
  s_output_tokens :: "int option"
  s_cost_usd :: "rat option"

record failure_row =
  f_run_id :: "string option"
  f_step_number :: "int option"
  f_build_phase :: "string option"
  f_phase :: "string option"
  f_category :: "string option"
  f_error :: "string option"
  f_exit_code :: "int option"

record search_row =
  w_run_id :: "string option"
  w_step_id :: "string option"
  w_query :: "string option"
  w_count :: "int option"
  w_timestamp :: "string option"

text \<open>The four tables, each a list of rows in insertion order. A column holds
  \<^verbatim>\<open>NULL\<close> as \<open>None\<close>. The text columns that hold \<^verbatim>\<open>json.dumps\<close> of a
  list are carried as the list; \<^verbatim>\<open>error_categories\<close>, the dump of
  \<^verbatim>\<open>list(set(...))\<close> whose order Python leaves open, as the set.\<close>

record db =
  runs :: "run_row list"
  steps :: "step_row list"
  failures :: "failure_row list"
  web_searches :: "search_row list"

datatype table = Web_Searches | Failures | Steps | Runs

datatype statement = Delete_Where_Run_Id table string | Insert_Into table

text \<open>A connection: the committed state of the store, the state this
  connection sees (with its own uncommitted writes), and the statements it
  has executed, oldest first.\<close>

record conn =
  committed :: db
  work :: db
  executed :: "statement list"

text \<open>Modelled from the spec: \<^verbatim>\<open>get_db\<close> and \<^verbatim>\<open>run_exists\<close> of
  \<^verbatim>\<open>dashboard/backend/db.py\<close>, which is not among the sources.
  \<^verbatim>\<open>get_db\<close> is a scoped, short-lived connection that is released on every
  exit path; \<^verbatim>\<open>commit\<close> publishes the connection's writes, and a release
  leaves the store at what was last committed. \<^verbatim>\<open>run_exists\<close> tells whether a
  run record with the identifier is in the store.\<close>

definition get_db :: "db \<Rightarrow> conn" where
  "get_db d = \<lparr>committed = d, work = d, executed = []\<rparr>"

definition commit :: "conn \<Rightarrow> conn" where
  "commit c = c\<lparr>committed := work c\<rparr>"

definition release :: "conn \<Rightarrow> db" where
  "release c = committed c"

definition run_exists :: "db \<Rightarrow> string \<Rightarrow> bool" where
  "run_exists d run_id = (Some run_id \<in> set (map r_run_id (runs d)))"

text \<open>\<^verbatim>\<open>DELETE FROM t WHERE run_id = ?\<close>: the comparison is never true of a
  \<^verbatim>\<open>NULL\<close> column.\<close>

fun delete_where_run_id :: "table \<Rightarrow> string \<Rightarrow> db \<Rightarrow> db" where
  "delete_where_run_id Web_Searches rid d =
     d\<lparr>web_searches := [w \<leftarrow> web_searches d. w_run_id w \<noteq> Some rid]\<rparr>"
| "delete_where_run_id Failures rid d =
     d\<lparr>failures := [f \<leftarrow> failures d. f_run_id f \<noteq> Some rid]\<rparr>"
| "delete_where_run_id Steps rid d =
     d\<lparr>steps := [s \<leftarrow> steps d. s_run_id s \<noteq> Some rid]\<rparr>"
| "delete_where_run_id Runs rid d =
     d\<lparr>runs := [r \<leftarrow> runs d. r_run_id r \<noteq> Some rid]\<rparr>"

definition execute_delete :: "conn \<Rightarrow> table \<Rightarrow> string \<Rightarrow> conn" where
  "execute_delete c t rid =
     c\<lparr>work := delete_where_run_id t rid (work c),
       executed := executed c @ [Delete_Where_Run_Id t rid]\<rparr>"

text \<open>Modelled from the spec: the run identifier is the unique key of the run
  records, and an insert against an identifier already in the store raises
  a uniqueness violation. (The schema is declared in
  \<^verbatim>\<open>dashboard/backend/db.py\<close>.)\<close>

definition execute_insert_run :: "conn \<Rightarrow> run_row \<Rightarrow> (error \<times> conn) + conn" where
  "execute_insert_run c row =
     (if (case r_run_id row of None \<Rightarrow> False | Some rid \<Rightarrow> run_exists (work c) rid)
      then Inl (IntegrityError, c)
      else Inr (c\<lparr>work := (work c)\<lparr>runs := runs (work c) @ [row]\<rparr>,
                  executed := executed c @ [Insert_Into Runs]\<rparr>))"

definition execute_insert_step :: "conn \<Rightarrow> step_row \<Rightarrow> conn" where
  "execute_insert_step c row =
     c\<lparr>work := (work c)\<lparr>steps := steps (work c) @ [row]\<rparr>,
       executed := executed c @ [Insert_Into Steps]\<rparr>"

definition execute_insert_failure :: "conn \<Rightarrow> failure_row \<Rightarrow> conn" where
  "execute_insert_failure c row =
     c\<lparr>work := (work c)\<lparr>failures := failures (work c) @ [row]\<rparr>,
       executed := executed c @ [Insert_Into Failures]\<rparr>"

definition execute_insert_search :: "conn \<Rightarrow> search_row \<Rightarrow> conn" where
  "execute_insert_search c row =
     c\<lparr>work := (work c)\<lparr>web_searches := web_searches (work c) @ [row]\<rparr>,
       executed := executed c @ [Insert_Into Web_Searches]\<rparr>"

section \<open>Ingestion\<close>

definition delete_run_data :: "conn \<Rightarrow> string \<Rightarrow> conn" where
  "delete_run_data c run_id =
     execute_delete
       (execute_delete
         (execute_delete
           (execute_delete c Web_Searches run_id)
           Failures run_id)
         Steps run_id)
       Runs run_id"

text \<open>\<^verbatim>\<open>str(n)\<close> of an integer and of \<^verbatim>\<open>None\<close>, for the step identifier
  \<^verbatim>\<open>f"{run_id}_{step_number}"\<close>.\<close>

definition digit_char :: "nat \<Rightarrow> char" where
  "digit_char n = char_of (48 + n)"

fun str_nat :: "nat \<Rightarrow> string" where
  "str_nat n = (if n < 10 then [digit_char n] else str_nat (n div 10) @ [digit_char (n mod 10)])"

definition str_int :: "int \<Rightarrow> string" where
  "str_int i = (if i < 0 then CHR ''-'' # str_nat (nat (- i)) else str_nat (nat i))"

fun str_step_number :: "int option \<Rightarrow> string" where
  "str_step_number None = ''None''"
| "str_step_number (Some i) = str_int i"

fun str_run_id :: "string option \<Rightarrow> string" where
  "str_run_id None = ''None''"
| "str_run_id (Some s) = s"

text \<open>\<^verbatim>\<open>v if v else None\<close> for a list value.\<close>

definition or_none :: "'a list option \<Rightarrow> 'a list option" where
  "or_none v = (if truthy v then v else None)"

text \<open>The parameters of \<^verbatim>\<open>INSERT INTO runs\<close>. They are evaluated before the
  statement runs, so a \<^verbatim>\<open>null\<close> section raises before anything is written.\<close>

definition run_row_of :: "string \<Rightarrow> string option \<Rightarrow> report \<Rightarrow> error + run_row" where
  "run_row_of ingested_at run_id data =
     (case section_get (rp_summary data) empty_summary of
        Inl e \<Rightarrow> Inl e
      | Inr summary \<Rightarrow>
     (case section_get (rp_tools_config data) empty_tools_config of
        Inl e \<Rightarrow> Inl e
      | Inr tools_config \<Rightarrow>
     (case section_get (rp_supabase_specific data) empty_supabase_specific of
        Inl e \<Rightarrow> Inl e
      | Inr supabase_specific \<Rightarrow>
     (case section_get (rp_token_usage data) empty_token_usage of
        Inl e \<Rightarrow> Inl e
      | Inr token_usage \<Rightarrow>
          Inr \<lparr>r_run_id = run_id,
               r_generated_at = dict_get (rp_generated_at data),
               r_prompt = dict_get (sm_prompt summary),
               r_status = dict_get (sm_status summary),
               r_duration_minutes = dict_get (sm_duration_minutes summary),
               r_total_steps = dict_get (sm_total_steps summary),
               r_passed_steps = dict_get (sm_passed_steps summary),
               r_failed_steps = dict_get (sm_failed_steps summary),
               r_total_retries = dict_get (sm_total_retries summary),
               r_replan_checkpoints = dict_get (sm_replan_checkpoints summary),
               r_replans_triggered = dict_get (sm_replans_triggered summary),
               r_success_rate = dict_get (sm_success_rate summary),
               r_planner = dict_get (tc_planner tools_config),
               r_implementer = dict_get (tc_implementer tools_config),
               r_verifier = dict_get (tc_verifier tools_config),
               r_models_used = or_none (dict_get (tc_models_used tools_config)),
               r_rls_issues = dict_get_default (sb_rls_issues supabase_specific) 0,
               r_migration_issues = dict_get_default (sb_migration_issues supabase_specific) 0,
               r_edge_function_issues =
                 dict_get_default (sb_edge_function_issues supabase_specific) 0,
               r_auth_issues = dict_get_default (sb_auth_issues supabase_specific) 0,
               r_total_input_tokens = dict_get_default (tu_total_input_tokens token_usage) 0,
               r_total_output_tokens = dict_get_default (tu_total_output_tokens token_usage) 0,
               r_total_cache_read_tokens =
                 dict_get_default (tu_total_cache_read_tokens token_usage) 0,
               r_total_cache_creation_tokens =
                 dict_get_default (tu_total_cache_creation_tokens token_usage) 0,
               r_total_cost_usd = dict_get_default (tu_total_cost_usd token_usage) 0,
               r_ingested_at = Some ingested_at,
               r_classified_at = None\<rparr>))))"

text \<open>The parameters of \<^verbatim>\<open>INSERT INTO steps\<close> for one entry of
  \<^verbatim>\<open>step_outcomes\<close>: the body of the loop up to the statement.\<close>

definition step_row_of ::
  "string option \<Rightarrow> raw_data_section field \<Rightarrow> failure_detail list field \<Rightarrow> step_outcome
     \<Rightarrow> error + step_row" where
  "step_row_of run_id raw_data failures_details step_outcome =
     (let step_number = dict_get (so_step step_outcome);
          step_id = str_run_id run_id @ ''_'' @ str_step_number step_number
      in case section_get raw_data empty_raw_data of
           Inl e \<Rightarrow> Inl e
         | Inr rd \<Rightarrow>
        (case get_raw_steps_for_step_number rd step_number of
           Inl e \<Rightarrow> Inl e
         | Inr raw_steps \<Rightarrow>
        (case iterate failures_details of
           Inl e \<Rightarrow> Inl e
         | Inr details \<Rightarrow>
             let phase = extract_phase_from_raw_steps raw_steps;
                 tool = extract_tool_from_raw_steps raw_steps;
                 step_failures = get_failures_for_step details step_number;
                 error_categories =
                   set [the (dict_get (fd_category f)).
                          f \<leftarrow> step_failures, truthy (dict_get (fd_category f))]
             in Inr \<lparr>s_id = Some step_id,
                     s_run_id = run_id,
                     s_step_number = step_number,
                     s_build_phase = dict_get (so_build_phase step_outcome),
                     s_phase = phase,
                     s_tool = tool,
                     s_final_verdict = dict_get (so_final_verdict step_outcome),
                     s_attempts = dict_get (so_attempts step_outcome),
                     s_retries = dict_get (so_retries step_outcome),
                     s_duration_seconds = dict_get (so_duration_seconds step_outcome),
                     s_resolution_actions =
                       or_none (dict_get (so_resolution_actions step_outcome)),
                     s_error_categories =
                       (if error_categories = {} then None else Some error_categories),
                     s_errors_summary = errors_summary_of step_failures,
                     s_classification = None,
                     s_classification_confidence = None,
                     s_classification_reasoning = None,
                     s_classification_evidence = None,
                     s_approach_changed = None,
                     s_same_file_repeated = None,
                     s_error_category_stable = None,
                     s_input_tokens = dict_get_default (so_input_tokens step_outcome) 0,
                     s_output_tokens = dict_get_default (so_output_tokens step_outcome) 0,
                     s_cost_usd = dict_get_default (so_cost_usd step_outcome) 0\<rparr>)))"

fun insert_steps ::
  "conn \<Rightarrow> string option \<Rightarrow> raw_data_section field \<Rightarrow> failure_detail list field
     \<Rightarrow> step_outcome list \<Rightarrow> (error \<times> conn) + conn" where
  "insert_steps c run_id raw_data failures_details [] = Inr c"
| "insert_steps c run_id raw_data failures_details (step_outcome # rest) =
     (case step_row_of run_id raw_data failures_details step_outcome of
        Inl e \<Rightarrow> Inl (e, c)
      | Inr row \<Rightarrow>
          insert_steps (execute_insert_step c row) run_id raw_data failures_details rest)"

definition failure_row_of :: "string option \<Rightarrow> failure_detail \<Rightarrow> failure_row" where
  "failure_row_of run_id failure =
     \<lparr>f_run_id = run_id,
      f_step_number = dict_get (fd_step failure),
      f_build_phase = dict_get (fd_build_phase failure),
      f_phase = dict_get (fd_phase failure),
      f_category = dict_get (fd_category failure),
      f_error = dict_get (fd_error failure),
      f_exit_code = dict_get (fd_exit_code failure)\<rparr>"

definition search_row_of :: "string option \<Rightarrow> web_search \<Rightarrow> search_row" where
  "search_row_of run_id ws =
     \<lparr>w_run_id = run_id,
      w_step_id = dict_get (ws_step_id ws),
      w_query = dict_get (ws_query ws),
      w_count = dict_get (ws_count ws),
      w_timestamp = dict_get (ws_timestamp ws)\<rparr>"

text \<open>\<^verbatim>\<open>_ingest_single_report\<close>. An exception is returned with the connection
  as it stands when the exception is raised. \<^verbatim>\<open>data["run_id"]\<close> raises
  \<^verbatim>\<open>KeyError\<close> on a missing key and \<^verbatim>\<open>TypeError\<close> on a document that is not
  an object.\<close>

definition ingest_single_report ::
  "conn \<Rightarrow> candidate \<Rightarrow> (error \<times> conn) + (conn \<times> string option)" where
  "ingest_single_report c report_path =
     (case json_load (content report_path) of
        Inl e \<Rightarrow> Inl (e, c)
      | Inr None \<Rightarrow> Inl (TypeError, c)
      | Inr (Some data) \<Rightarrow>
          if rp_run_id data = Absent then Inl (KeyError, c)
          else
            let run_id = dict_get (rp_run_id data)
            in case run_row_of (clock report_path) run_id data of
                 Inl e \<Rightarrow> Inl (e, c)
               | Inr row \<Rightarrow>
              (case execute_insert_run c row of
                 Inl ec \<Rightarrow> Inl ec
               | Inr c1 \<Rightarrow>
              (case section_get (rp_failures data) empty_failures of
                 Inl e \<Rightarrow> Inl (e, c1)
               | Inr failures_section \<Rightarrow>
              (case iterate (rp_step_outcomes data) of
                 Inl e \<Rightarrow> Inl (e, c1)
               | Inr step_outcomes \<Rightarrow>
              (case insert_steps c1 run_id (rp_raw_data data)
                      (fs_details failures_section) step_outcomes of
                 Inl ec \<Rightarrow> Inl ec
               | Inr c2 \<Rightarrow>
              (case iterate (fs_details failures_section) of
                 Inl e \<Rightarrow> Inl (e, c2)
               | Inr failures_details \<Rightarrow>
                  let c3 = foldl execute_insert_failure c2
                             (map (failure_row_of run_id) failures_details)
                  in case iterate (rp_web_searches data) of
                       Inl e \<Rightarrow> Inl (e, c3)
                     | Inr searches \<Rightarrow>
                         Inr (foldl execute_insert_search c3
                                (map (search_row_of run_id) searches),
                              run_id)))))))"

text \<open>The result of \<^verbatim>\<open>ingest_reports\<close>: the three counters.\<close>

record counts =
  ingested :: nat
  skipped :: nat
  errors :: nat

datatype outcome = Ingested | Skipped | Error

text \<open>The block \<^verbatim>\<open>with get_db() as conn:\<close> of \<^verbatim>\<open>ingest_reports\<close>: delete
  under force, ingest, commit. Whichever way the block is left the
  connection is released, and the store is what the release leaves.\<close>

definition ingest_transaction ::
  "bool \<Rightarrow> db \<Rightarrow> candidate \<Rightarrow> string \<Rightarrow> (error \<times> db) + db" where
  "ingest_transaction force d report_path run_id =
     (let c = get_db d;
          c' = (if force \<and> run_exists d run_id then delete_run_data c run_id else c)
      in case ingest_single_report c' report_path of
           Inl (e, c'') \<Rightarrow> Inl (e, release c'')
         | Inr (c'', _) \<Rightarrow> Inr (release (commit c'')))"

text \<open>The body of the \<^verbatim>\<open>try\<close> for one file. \<^verbatim>\<open>data.get("run_id")\<close> raises
  \<^verbatim>\<open>AttributeError\<close> on a document that is not an object.\<close>

definition try_file :: "bool \<Rightarrow> db \<Rightarrow> candidate \<Rightarrow> (error \<times> db) + (outcome \<times> db)" where
  "try_file force d report_path =
     (case json_load (content report_path) of
        Inl e \<Rightarrow> Inl (e, d)
      | Inr None \<Rightarrow> Inl (AttributeError, d)
      | Inr (Some data) \<Rightarrow>
          let run_id = dict_get (rp_run_id data)
          in if \<not> truthy run_id then Inr (Error, d)
             else if \<not> force \<and> run_exists d (the run_id) then Inr (Skipped, d)
             else
               case ingest_transaction force d report_path (the run_id) of
                 Inl ed \<Rightarrow> Inl ed
               | Inr d' \<Rightarrow> Inr (Ingested, d'))"

fun count_outcome :: "counts \<Rightarrow> outcome \<Rightarrow> counts" where
  "count_outcome result Ingested = result\<lparr>ingested := ingested result + 1\<rparr>"
| "count_outcome result Skipped = result\<lparr>skipped := skipped result + 1\<rparr>"
| "count_outcome result Error = result\<lparr>errors := errors result + 1\<rparr>"

text \<open>One turn of the loop over the files: the \<^verbatim>\<open>try\<close> with its three
  handlers, each of which counts an error; the last one catches every
  \<^verbatim>\<open>Exception\<close>.\<close>

definition process_file :: "bool \<Rightarrow> counts \<times> db \<Rightarrow> candidate \<Rightarrow> counts \<times> db" where
  "process_file force state report_path =
     (case try_file force (snd state) report_path of
        Inl (e, d') \<Rightarrow> (count_outcome (fst state) Error, d')
      | Inr (oc, d') \<Rightarrow> (count_outcome (fst state) oc, d'))"

text \<open>\<^verbatim>\<open>ingest_reports\<close>. The reports directory is \<open>None\<close> when it does not
  exist, and otherwise the list of the files that match \<^verbatim>\<open>*_full.json\<close>,
  in the order the directory yields them.\<close>

definition ingest_reports :: "bool \<Rightarrow> candidate list option \<Rightarrow> db \<Rightarrow> counts \<times> db" where
  "ingest_reports force reports_dir d =
     (let result = \<lparr>ingested = 0, skipped = 0, errors = 0\<rparr>
      in case reports_dir of
           None \<Rightarrow> (result, d)
         | Some report_files \<Rightarrow>
             if report_files = [] then (result, d)
             else foldl (process_file force) (result, d) report_files)"

text \<open>The terminal outcome each file reaches, file by file: the outcome of one turn
  of the loop and the store it leaves, and the outcomes of a list of files processed
  in order.\<close>

definition outcome_step :: "bool \<Rightarrow> db \<Rightarrow> candidate \<Rightarrow> outcome \<times> db" where
  "outcome_step force d report_path =
     (case try_file force d report_path of
        Inl (e, d') \<Rightarrow> (Error, d')
      | Inr (oc, d') \<Rightarrow> (oc, d'))"

fun outcomes :: "bool \<Rightarrow> db \<Rightarrow> candidate list \<Rightarrow> outcome list" where
  "outcomes force d [] = []"
| "outcomes force d (f # fs) =
     fst (outcome_step force d f) # outcomes force (snd (outcome_step force d f)) fs"

text \<open>Sequencing of steps that may raise, used to reason about the nested case
  distinctions above: \<open>raised_in c m\<close> is \<open>m\<close> with the connection \<open>c\<close> attached to
  its exception, and \<open>and_then m k\<close> continues with \<open>k\<close> when \<open>m\<close> returns.\<close>

definition raised_in :: "conn \<Rightarrow> error + 'a \<Rightarrow> (error \<times> conn) + 'a" where
  "raised_in c m = (case m of Inl e \<Rightarrow> Inl (e, c) | Inr x \<Rightarrow> Inr x)"

definition and_then :: "'e + 'a \<Rightarrow> ('a \<Rightarrow> 'e + 'b) \<Rightarrow> 'e + 'b" where
  "and_then m k = (case m of Inl e \<Rightarrow> Inl e | Inr x \<Rightarrow> k x)"

text \<open>The store without the records of one run, and the entries of a list-valued key
  (none when the key is absent).\<close>

definition without_run :: "db \<Rightarrow> string \<Rightarrow> db" where
  "without_run d rid =
     \<lparr>runs = [r \<leftarrow> runs d. r_run_id r \<noteq> Some rid],
      steps = [s \<leftarrow> steps d. s_run_id s \<noteq> Some rid],
      failures = [f \<leftarrow> failures d. f_run_id f \<noteq> Some rid],
      web_searches = [w \<leftarrow> web_searches d. w_run_id w \<noteq> Some rid]\<rparr>"

fun entries :: "'a list field \<Rightarrow> 'a list" where
  "entries (Val xs) = xs"
| "entries Null = []"
| "entries Absent = []"

fun failures_details_field :: "report \<Rightarrow> failure_detail list field" where
  "failures_details_field data =
     (case rp_failures data of Val s \<Rightarrow> fs_details s | _ \<Rightarrow> Absent)"

text \<open>The store after a list of files has been processed in order.\<close>

fun store_after :: "bool \<Rightarrow> db \<Rightarrow> candidate list \<Rightarrow> db" where
  "store_after force d [] = d"
| "store_after force d (f # fs) = store_after force (snd (outcome_step force d f)) fs"

text \<open>Every run of the first store is a run of the second.\<close>

definition keeps_runs :: "db \<Rightarrow> db \<Rightarrow> bool" where
  "keeps_runs d d' = (set (map r_run_id (runs d)) \<subseteq> set (map r_run_id (runs d')))"

text \<open>The three kinds of failure of a candidate file: it cannot be read or parsed as
  an object; it has no usable \<^verbatim>\<open>run_id\<close>; or it reaches the transaction, which
  raises.\<close>

definition parse_failure :: "candidate \<Rightarrow> bool" where
  "parse_failure report_path =
     (case json_load (content report_path) of
        Inl e \<Rightarrow> True | Inr None \<Rightarrow> True | Inr (Some data) \<Rightarrow> False)"

definition missing_run_id :: "candidate \<Rightarrow> bool" where
  "missing_run_id report_path =
     (case json_load (content report_path) of
        Inr (Some data) \<Rightarrow> \<not> truthy (dict_get (rp_run_id data)) | _ \<Rightarrow> False)"

definition write_failure :: "bool \<Rightarrow> db \<Rightarrow> candidate \<Rightarrow> bool" where
  "write_failure force d report_path =
     (case json_load (content report_path) of
        Inr (Some data) \<Rightarrow>
          truthy (dict_get (rp_run_id data)) \<and>
          (force \<or> \<not> run_exists d (the (dict_get (rp_run_id data)))) \<and>
          isl (ingest_transaction force d report_path (the (dict_get (rp_run_id data))))
      | _ \<Rightarrow> False)"

section \<open>Aggregations\<close>

text \<open>ASCII case mapping: what SQLite's \<^verbatim>\<open>UPPER\<close> does, and what
  \<^verbatim>\<open>str.lower\<close> does on ASCII text.\<close>

definition upper_char :: "char \<Rightarrow> char" where
  "upper_char c =
     (if 97 \<le> (of_char c :: nat) \<and> (of_char c :: nat) \<le> 122
      then char_of ((of_char c :: nat) - 32) else c)"

definition lower_char :: "char \<Rightarrow> char" where
  "lower_char c =
     (if 65 \<le> (of_char c :: nat) \<and> (of_char c :: nat) \<le> 90
      then char_of ((of_char c :: nat) + 32) else c)"

definition UPPER :: "string \<Rightarrow> string" where
  "UPPER s = map upper_char s"

definition lower :: "string \<Rightarrow> string" where
  "lower s = map lower_char s"

text \<open>The classification part of \<^verbatim>\<open>get_stats\<close>. The query groups the steps by
  \<^verbatim>\<open>COALESCE(classification, 'pending')\<close>; the groups are taken in the order
  in which their labels first occur.\<close>

fun coalesce :: "'a option \<Rightarrow> 'a \<Rightarrow> 'a" where
  "coalesce None d = d"
| "coalesce (Some v) d = v"

definition classification_rows :: "db \<Rightarrow> (string \<times> nat) list" where
  "classification_rows d =
     Counter (map (\<lambda>s. coalesce (s_classification s) ''pending'') (steps d))"

definition initial_classification_counts :: "string \<rightharpoonup> nat" where
  "initial_classification_counts =
     [''architectural'' \<mapsto> 0, ''implementation'' \<mapsto> 0, ''clean_pass'' \<mapsto> 0,
      ''ambiguous'' \<mapsto> 0, ''pending'' \<mapsto> 0]"

definition classification_step :: "(string \<rightharpoonup> nat) \<Rightarrow> string \<times> nat \<Rightarrow> (string \<rightharpoonup> nat)" where
  "classification_step classification_counts row =
     (let cls = lower (if fst row = [] then ''pending'' else fst row)
      in if cls \<in> dom classification_counts then classification_counts(cls \<mapsto> snd row)
         else if cls = [] then
           classification_counts
             (''pending'' \<mapsto> the (classification_counts ''pending'') + snd row)
         else classification_counts)"

definition stats_classification_counts :: "db \<Rightarrow> (string \<rightharpoonup> nat)" where
  "stats_classification_counts d =
     foldl classification_step initial_classification_counts (classification_rows d)"

definition stats_total_steps :: "db \<Rightarrow> nat" where
  "stats_total_steps d = length (steps d)"

definition bucket_sum :: "(string \<rightharpoonup> nat) \<Rightarrow> nat" where
  "bucket_sum classification_counts =
     sum_list (map (\<lambda>k. the (classification_counts k))
       [''architectural'', ''implementation'', ''clean_pass'', ''ambiguous'', ''pending''])"

text \<open>The self-correction part of \<^verbatim>\<open>get_patterns\<close>. The join pairs a failure
  with a step of the same run and step number (a \<^verbatim>\<open>NULL\<close> equals nothing);
  the filter keeps the pairs with a non-empty category and a positive retry
  count.\<close>

fun sql_eq :: "'a option \<Rightarrow> 'a option \<Rightarrow> bool" where
  "sql_eq (Some a) (Some b) = (a = b)"
| "sql_eq _ _ = False"

fun positive :: "int option \<Rightarrow> bool" where
  "positive None = False"
| "positive (Some n) = (0 < n)"

fun verdict_in :: "string option \<Rightarrow> string list \<Rightarrow> bool" where
  "verdict_in None vs = False"
| "verdict_in (Some v) vs = (UPPER v \<in> set vs)"

definition self_correction_join :: "db \<Rightarrow> (failure_row \<times> step_row) list" where
  "self_correction_join d =
     [(f, s). f \<leftarrow> failures d, s \<leftarrow> steps d,
        sql_eq (f_run_id f) (s_run_id s) \<and> sql_eq (f_step_number f) (s_step_number s),
        truthy (f_category f) \<and> positive (s_retries s)]"

record self_correction_row =
  sc_category :: string
  sc_total :: nat
  sc_self_corrected :: nat
  sc_failed :: nat
  sc_rate :: rat

text \<open>One group of the query and the Python that follows it:
  \<^verbatim>\<open>COUNT(DISTINCT s.id)\<close>, the two \<^verbatim>\<open>SUM(CASE ...)\<close> over the rows of the
  group, and \<^verbatim>\<open>self_corrected / total if total > 0 else 0\<close>. The rate is the
  quotient before \<^verbatim>\<open>round(rate, 3)\<close>.\<close>

definition self_correction_group ::
  "(failure_row \<times> step_row) list \<Rightarrow> string \<Rightarrow> self_correction_row" where
  "self_correction_group rows category =
     (let grp = [p \<leftarrow> rows. f_category (fst p) = Some category];
          total = length (remdups [the (s_id (snd p)). p \<leftarrow> grp, s_id (snd p) \<noteq> None]);
          self_corrected =
            length [p \<leftarrow> grp. positive (s_retries (snd p)) \<and>
                      verdict_in (s_final_verdict (snd p)) [''PROCEED'', ''PASS'']];
          failed =
            length [p \<leftarrow> grp. positive (s_retries (snd p)) \<and>
                      verdict_in (s_final_verdict (snd p)) [''FAIL'', ''SKIP'']]
      in \<lparr>sc_category = category, sc_total = total, sc_self_corrected = self_corrected,
          sc_failed = failed,
          sc_rate = (if total > 0 then of_nat self_corrected / of_nat total else 0)\<rparr>)"

text \<open>The groups, \<^verbatim>\<open>ORDER BY total DESC\<close> (groups of equal total stay in the
  order in which their categories first occur).\<close>

definition self_correction :: "db \<Rightarrow> self_correction_row list" where
  "self_correction d =
     (let rows = self_correction_join d;
          categories = first_seen [the (f_category (fst p)). p \<leftarrow> rows]
      in sort_key (\<lambda>r. - int (sc_total r)) (map (self_correction_group rows) categories))"

section \<open>A worked example\<close>

text \<open>A report of run \<^verbatim>\<open>r1\<close> with two step outcomes, one failure and one web
  search; the same report with \<^verbatim>\<open>"step_outcomes": null\<close>, which makes ingestion
  raise after the run record has been written; and the empty store.\<close>

definition example_report :: report where
  "example_report =
     \<lparr>rp_run_id = Val ''r1'', rp_generated_at = Val ''2025-01-01'',
      rp_summary = Absent, rp_tools_config = Absent, rp_supabase_specific = Absent,
      rp_token_usage = Absent,
      rp_raw_data = Val \<lparr>rd_steps = Val
        [\<lparr>rs_step = Val 1, rs_phase = Val ''build'', rs_tool = Val ''cursor''\<rparr>,
         \<lparr>rs_step = Val 1, rs_phase = Val ''test'', rs_tool = Val ''cursor''\<rparr>]\<rparr>,
      rp_step_outcomes = Val
        [\<lparr>so_step = Val 1, so_build_phase = Val ''setup'', so_final_verdict = Val ''PASS'',
          so_attempts = Val 2, so_retries = Val 1, so_duration_seconds = Absent,
          so_resolution_actions = Absent, so_input_tokens = Absent,
          so_output_tokens = Absent, so_cost_usd = Absent\<rparr>,
         \<lparr>so_step = Val 2, so_build_phase = Val ''deploy'', so_final_verdict = Val ''FAIL'',
          so_attempts = Val 1, so_retries = Val 0, so_duration_seconds = Absent,
          so_resolution_actions = Absent, so_input_tokens = Absent,
          so_output_tokens = Absent, so_cost_usd = Absent\<rparr>],
      rp_failures = Val \<lparr>fs_details = Val
        [\<lparr>fd_step = Val 1, fd_build_phase = Val ''setup'', fd_phase = Absent,
          fd_category = Val ''timeout'', fd_error = Val ''timed out'',
          fd_exit_code = Val 1\<rparr>]\<rparr>,
      rp_web_searches = Val
        [\<lparr>ws_step_id = Val ''r1_1'', ws_query = Val ''sqlite'', ws_count = Val 1,
          ws_timestamp = Absent\<rparr>]\<rparr>"

definition example_file :: candidate where
  "example_file = \<lparr>content = Document example_report, clock = ''t1''\<rparr>"

definition broken_file :: candidate where
  "broken_file =
     \<lparr>content = Document (example_report\<lparr>rp_step_outcomes := Null\<rparr>), clock = ''t2''\<rparr>"

definition empty_db :: db where
  "empty_db = \<lparr>runs = [], steps = [], failures = [], web_searches = []\<rparr>"

text \<open>The step record that ingestion writes for step 1 of run \<^verbatim>\<open>r1\<close>, a step
  that was retried once and passed, and a failure record of that step with the
  category \<^verbatim>\<open>timeout\<close>.\<close>

definition example_step :: step_row where
  "example_step =
     \<lparr>s_id = Some ''r1_1'', s_run_id = Some ''r1'', s_step_number = Some 1,
      s_build_phase = Some ''setup'', s_phase = Some ''build,test'',
      s_tool = Some ''cursor'', s_final_verdict = Some ''PASS'', s_attempts = Some 2,
      s_retries = Some 1, s_duration_seconds = None, s_resolution_actions = None,
      s_error_categories = Some {''timeout''}, s_errors_summary = Some ''timed out'',
      s_classification = None, s_classification_confidence = None,
      s_classification_reasoning = None, s_classification_evidence = None,
      s_approach_changed = None, s_same_file_repeated = None,
      s_error_category_stable = None, s_input_tokens = Some 0,
      s_output_tokens = Some 0, s_cost_usd = Some 0\<rparr>"

definition example_failure :: failure_row where
  "example_failure =
     \<lparr>f_run_id = Some ''r1'', f_step_number = Some 1, f_build_phase = Some ''setup'',
      f_phase = None, f_category = Some ''timeout'', f_error = Some ''timed out'',
      f_exit_code = Some 1\<rparr>"

section \<open>Insertion order, counting and the first maximum\<close>

lemma set_first_seen: "set (first_seen xs) = set xs"
  by (induction xs) auto

lemma distinct_first_seen: "distinct (first_seen xs)"
  by (induction xs) auto

lemma first_seen_snoc:
  "first_seen (xs @ [x]) = (if x \<in> set xs then first_seen xs else first_seen xs @ [x])"
  by (induction xs) auto

lemma fromkeys_snoc:
  "fromkeys (xs @ [x]) = (if x \<in> set (fromkeys xs) then fromkeys xs else fromkeys xs @ [x])"
  by (simp add: fromkeys_def)

lemma fromkeys_first_seen: "fromkeys xs = first_seen xs"
proof (induction xs rule: rev_induct)
  case Nil
  show ?case by (simp add: fromkeys_def)
next
  case (snoc x xs)
  then show ?case by (simp add: fromkeys_snoc first_seen_snoc set_first_seen)
qed

lemma takeWhile_neq_filter:
  "Q u \<Longrightarrow> takeWhile (\<lambda>y. y \<noteq> u) (filter Q ys) = filter Q (takeWhile (\<lambda>y. y \<noteq> u) ys)"
  by (induction ys) auto

lemma first_seen_before:
  "t \<in> set (takeWhile (\<lambda>y. y \<noteq> u) (first_seen xs)) \<Longrightarrow> t \<in> set (takeWhile (\<lambda>y. y \<noteq> u) xs)"
proof (induction xs)
  case Nil
  then show ?case by simp
next
  case (Cons x xs)
  show ?case
  proof (cases "x = u")
    case True
    with Cons.prems show ?thesis by simp
  next
    case False
    then have "takeWhile (\<lambda>y. y \<noteq> u) [y \<leftarrow> first_seen xs. y \<noteq> x]
             = [y \<leftarrow> takeWhile (\<lambda>y. y \<noteq> u) (first_seen xs). y \<noteq> x]"
      using takeWhile_neq_filter [of "\<lambda>y. y \<noteq> x" u "first_seen xs"] by auto
    with Cons False show ?thesis by auto
  qed
qed

lemma Counter_snoc: "Counter (xs @ [x]) = counter_add (Counter xs) x"
  by (simp add: Counter_def)

lemma keys_counter_add:
  "map fst (counter_add kcs x) = (if x \<in> fst ` set kcs then map fst kcs else map fst kcs @ [x])"
  by (induction kcs x rule: counter_add.induct) auto

lemma keys_Counter: "map fst (Counter xs) = first_seen xs"
proof (induction xs rule: rev_induct)
  case Nil
  show ?case by (simp add: Counter_def)
next
  case (snoc x xs)
  have "fst ` set (Counter xs) = set xs"
    using snoc set_first_seen [of xs] by (metis set_map)
  with snoc show ?case by (simp add: Counter_snoc keys_counter_add first_seen_snoc)
qed

lemma in_counter_add:
  "distinct (map fst kcs) \<Longrightarrow>
   (k, c) \<in> set (counter_add kcs x) \<longleftrightarrow>
     (if k = x then (if x \<in> fst ` set kcs then 0 < c \<and> (k, c - 1) \<in> set kcs else c = 1)
      else (k, c) \<in> set kcs)"
  by (induction kcs x rule: counter_add.induct) (auto simp: rev_image_eqI)

lemma in_Counter: "(k, c) \<in> set (Counter xs) \<longleftrightarrow> k \<in> set xs \<and> c = count_list xs k"
proof (induction xs arbitrary: c rule: rev_induct)
  case Nil
  show ?case by (simp add: Counter_def)
next
  case (snoc x xs)
  have d: "distinct (map fst (Counter xs))" by (simp add: keys_Counter distinct_first_seen)
  have k: "fst ` set (Counter xs) = set xs"
    using keys_Counter [of xs] set_first_seen [of xs] by (metis set_map)
  show ?case
    unfolding Counter_snoc in_counter_add [OF d] k snoc.IH
    by (auto simp: count_list_0_iff)
qed

lemma max_by_count_mem: "max_by_count b xs \<in> set (b # xs)"
  by (induction xs arbitrary: b) auto

lemma max_by_count_ge_best: "snd b \<le> snd (max_by_count b xs)"
proof (induction xs arbitrary: b)
  case Nil
  show ?case by simp
next
  case (Cons x xs)
  show ?case
    using Cons.IH [of x] Cons.IH [of b] by (simp add: less_imp_le order_trans [OF less_imp_le])
qed

lemma max_by_count_ge: "y \<in> set xs \<Longrightarrow> snd y \<le> snd (max_by_count b xs)"
proof (induction xs arbitrary: b)
  case Nil
  then show ?case by simp
next
  case (Cons x xs)
  show ?case
  proof (cases "y = x")
    case True
    show ?thesis
      using max_by_count_ge_best [of "if snd b < snd x then x else b" xs] True
      by (auto split: if_splits)
  next
    case False
    with Cons.prems have "y \<in> set xs" by simp
    then show ?thesis using Cons.IH by simp
  qed
qed

lemma max_by_count_first:
  "y \<in> set (takeWhile (\<lambda>y. y \<noteq> max_by_count b xs) (b # xs)) \<Longrightarrow>
   snd y < snd (max_by_count b xs)"
proof (induction xs arbitrary: b y)
  case Nil
  then show ?case by simp
next
  case (Cons x xs)
  let ?r = "max_by_count b (x # xs)"
  show ?case
  proof (cases "snd b < snd x")
    case True
    then have r: "?r = max_by_count x xs" by simp
    have bx: "snd b < snd ?r"
      using True max_by_count_ge_best [of x xs] r by simp
    then have "b \<noteq> ?r" by auto
    with Cons.prems have "y = b \<or> y \<in> set (takeWhile (\<lambda>y. y \<noteq> ?r) (x # xs))"
      by (auto split: if_splits)
    then show ?thesis
    proof
      assume "y = b" with bx show ?thesis by simp
    next
      assume "y \<in> set (takeWhile (\<lambda>y. y \<noteq> ?r) (x # xs))"
      then show ?thesis using Cons.IH [of y x] r by simp
    qed
  next
    case False
    then have r: "?r = max_by_count b xs" by simp
    show ?thesis
    proof (cases "b = ?r")
      case True
      with Cons.prems show ?thesis by simp
    next
      case nb: False
      then have "b \<in> set (takeWhile (\<lambda>y. y \<noteq> ?r) (b # xs))" by simp
      then have bl: "snd b < snd ?r" using Cons.IH [of b b] r by simp
      with False have xl: "snd x < snd ?r" by simp
      then have "x \<noteq> ?r" by auto
      with Cons.prems nb have "y = b \<or> y = x \<or> y \<in> set (takeWhile (\<lambda>y. y \<noteq> ?r) xs)"
        by (auto split: if_splits)
      moreover have "y \<in> set (takeWhile (\<lambda>y. y \<noteq> ?r) xs) \<Longrightarrow> snd y < snd ?r"
        using Cons.IH [of y b] nb r by simp
      ultimately show ?thesis using bl xl by blast
    qed
  qed
qed

lemma precedes_swap:
  "a \<in> set l \<Longrightarrow> a \<noteq> b \<Longrightarrow> b \<notin> set (takeWhile (\<lambda>y. y \<noteq> a) l) \<Longrightarrow>
   a \<in> set (takeWhile (\<lambda>y. y \<noteq> b) l)"
  by (induction l) (auto split: if_splits)

lemma takeWhile_map_fst:
  "distinct (map fst l) \<Longrightarrow> (k, c) \<in> set l \<Longrightarrow> 
   map fst (takeWhile (\<lambda>y. y \<noteq> (k, c)) l) = takeWhile (\<lambda>y. y \<noteq> k) (map fst l)"
  by (induction l) (auto simp: rev_image_eqI)

section \<open>Derived phase, tool and error summary\<close>

lemma truthy_values:
  "[the (dict_get (g s)). s \<leftarrow> xs, truthy (dict_get (g s))]
   = concat (map (\<lambda>s. nonempty_value (g s)) xs)"
proof (induction xs)
  case Nil
  show ?case by simp
next
  case (Cons x xs)
  then show ?case by (cases "g x") simp_all
qed

lemma length_first_seen_1:
  "xs \<noteq> [] \<Longrightarrow> length (first_seen xs) = Suc 0 \<longleftrightarrow> (\<forall>x \<in> set xs. x = hd xs)"
  by (cases xs) (auto simp: filter_empty_conv set_first_seen)

lemma hd_first_seen: "xs \<noteq> [] \<Longrightarrow> hd (first_seen xs) = hd xs"
  by (cases xs) simp_all

lemma matching_sub_steps:
  "get_raw_steps_for_step_number raw_data n = Inr subs \<Longrightarrow>
   subs = [s \<leftarrow> (case rd_steps raw_data of Val xs \<Rightarrow> xs | _ \<Rightarrow> []). dict_get (rs_step s) = n]"
  by (cases "rd_steps raw_data") (auto simp: get_raw_steps_for_step_number_def)

text \<open>
  Claim C4, as the code has it. The matching sub-steps of a step number are the
  entries of \<^verbatim>\<open>raw_data.steps\<close> whose step equals it (\<open>matching_sub_steps\<close>). Of
  these only the phases that are present, not null and not empty count: the derived
  phase is \<open>None\<close> when there is none, the common value when they are all equal, and
  otherwise the distinct ones in order of first appearance, joined by commas.
\<close>

theorem derived_phase_ignores_empty:
  assumes "get_raw_steps_for_step_number raw_data n = Inr subs"
    and "phases = concat (map (\<lambda>s. nonempty_value (rs_phase s)) subs)"
  shows "extract_phase_from_raw_steps subs =
           (if phases = [] then None
            else if \<forall>p \<in> set phases. p = hd phases then Some (hd phases)
            else Some (join '','' (first_seen phases)))"
proof -
  have e: "subs = [] \<Longrightarrow> phases = []" using assms(2) by simp
  have p: "[the (dict_get (rs_phase s)). s \<leftarrow> subs, truthy (dict_get (rs_phase s))] = phases"
    using truthy_values [of rs_phase subs] assms(2) by simp
  show ?thesis
    unfolding extract_phase_from_raw_steps_def p Let_def fromkeys_first_seen
    using e by (simp add: length_first_seen_1 hd_first_seen)
qed

theorem derived_phase_witness:
  "get_raw_steps_for_step_number
     \<lparr>rd_steps = Val
        [\<lparr>rs_step = Val 2, rs_phase = Val ''build'', rs_tool = Absent\<rparr>,
         \<lparr>rs_step = Val 1, rs_phase = Val ''deploy'', rs_tool = Absent\<rparr>,
         \<lparr>rs_step = Val 2, rs_phase = Null, rs_tool = Absent\<rparr>,
         \<lparr>rs_step = Val 2, rs_phase = Val ''test'', rs_tool = Absent\<rparr>,
         \<lparr>rs_step = Val 2, rs_phase = Val ''build'', rs_tool = Absent\<rparr>]\<rparr> (Some 2)
   = Inr
        [\<lparr>rs_step = Val 2, rs_phase = Val ''build'', rs_tool = Absent\<rparr>,
         \<lparr>rs_step = Val 2, rs_phase = Null, rs_tool = Absent\<rparr>,
         \<lparr>rs_step = Val 2, rs_phase = Val ''test'', rs_tool = Absent\<rparr>,
         \<lparr>rs_step = Val 2, rs_phase = Val ''build'', rs_tool = Absent\<rparr>] \<and>
   extract_phase_from_raw_steps
        [\<lparr>rs_step = Val 2, rs_phase = Val ''build'', rs_tool = Absent\<rparr>,
         \<lparr>rs_step = Val 2, rs_phase = Null, rs_tool = Absent\<rparr>,
         \<lparr>rs_step = Val 2, rs_phase = Val ''test'', rs_tool = Absent\<rparr>,
         \<lparr>rs_step = Val 2, rs_phase = Val ''build'', rs_tool = Absent\<rparr>]
   = Some ''build,test''"
proof -
  let ?subs = "[\<lparr>rs_step = Val 2, rs_phase = Val ''build'', rs_tool = Absent\<rparr>,
         \<lparr>rs_step = Val 2, rs_phase = Null, rs_tool = Absent\<rparr>,
         \<lparr>rs_step = Val 2, rs_phase = Val ''test'', rs_tool = Absent\<rparr>,
         \<lparr>rs_step = Val 2, rs_phase = Val ''build'', rs_tool = Absent\<rparr>]"
  have a: "get_raw_steps_for_step_number
     \<lparr>rd_steps = Val
        [\<lparr>rs_step = Val 2, rs_phase = Val ''build'', rs_tool = Absent\<rparr>,
         \<lparr>rs_step = Val 1, rs_phase = Val ''deploy'', rs_tool = Absent\<rparr>,
         \<lparr>rs_step = Val 2, rs_phase = Null, rs_tool = Absent\<rparr>,
         \<lparr>rs_step = Val 2, rs_phase = Val ''test'', rs_tool = Absent\<rparr>,
         \<lparr>rs_step = Val 2, rs_phase = Val ''build'', rs_tool = Absent\<rparr>]\<rparr> (Some 2)
     = Inr ?subs"
    by (simp add: get_raw_steps_for_step_number_def)
  have b: "[''build'', ''test'', ''build''] = concat (map (\<lambda>s. nonempty_value (rs_phase s)) ?subs)"
    by simp
  have "extract_phase_from_raw_steps ?subs = Some ''build,test''"
    using derived_phase_ignores_empty [OF a b] by simp
  with a show ?thesis by (intro conjI)
qed

text \<open>
  Claim C4 as it is stated fails on an empty phase: of two matching sub-steps with
  the phases \<^verbatim>\<open>"build"\<close> and \<^verbatim>\<open>""\<close> the code derives \<^verbatim>\<open>"build"\<close>, where the two
  distinct phase values joined by a comma are \<^verbatim>\<open>"build,"\<close>.
\<close>

theorem derived_phase_counterexample:
  "extract_phase_from_raw_steps
     [\<lparr>rs_step = Val 1, rs_phase = Val ''build'', rs_tool = Absent\<rparr>,
      \<lparr>rs_step = Val 1, rs_phase = Val '''', rs_tool = Absent\<rparr>] = Some ''build'' \<and>
   phase_as_claimed
     [\<lparr>rs_step = Val 1, rs_phase = Val ''build'', rs_tool = Absent\<rparr>,
      \<lparr>rs_step = Val 1, rs_phase = Val '''', rs_tool = Absent\<rparr>] = Some ''build,''"
  by (simp add: extract_phase_from_raw_steps_def phase_as_claimed_def fromkeys_def)

text \<open>
  Claim C7. With the tools of the matching sub-steps that are present, not null and
  not empty: the derived tool is \<open>None\<close> exactly when there is none; otherwise it is
  one of them, no tool occurs more often, and it occurs before the first occurrence
  of every other tool that occurs as often.
\<close>

theorem derived_tool_most_frequent_first:
  assumes "get_raw_steps_for_step_number raw_data n = Inr subs"
    and "tools = concat (map (\<lambda>s. nonempty_value (rs_tool s)) subs)"
  shows "case extract_tool_from_raw_steps subs of
           None \<Rightarrow> tools = []
         | Some t \<Rightarrow>
             t \<in> set tools \<and>
             (\<forall>u. count_list tools u \<le> count_list tools t) \<and>
             (\<forall>u. u \<in> set tools \<and> u \<noteq> t \<and> count_list tools u = count_list tools t
                  \<longrightarrow> t \<in> set (takeWhile (\<lambda>y. y \<noteq> u) tools))"
proof (cases "tools = []")
  case True
  then have "[the (dict_get (rs_tool s)). s \<leftarrow> subs, truthy (dict_get (rs_tool s))] = []"
    using truthy_values [of rs_tool subs] assms(2) by simp
  then have "extract_tool_from_raw_steps subs = None"
    unfolding extract_tool_from_raw_steps_def by simp
  with True show ?thesis by simp
next
  case False
  have p: "[the (dict_get (rs_tool s)). s \<leftarrow> subs, truthy (dict_get (rs_tool s))] = tools"
    using truthy_values [of rs_tool subs] assms(2) by simp
  from False have ne: "subs \<noteq> []" using assms(2) by auto
  from False have "first_seen tools \<noteq> []"
    using set_first_seen [of tools] by (metis set_empty)
  then have "Counter tools \<noteq> []" using keys_Counter [of tools] by auto
  then obtain x xs where c: "Counter tools = x # xs" by (cases "Counter tools") auto
  define r where "r = max_by_count x xs"
  have res: "extract_tool_from_raw_steps subs = Some (fst r)"
    unfolding extract_tool_from_raw_steps_def p Let_def using ne False c r_def by simp
  have rin: "r \<in> set (Counter tools)" using max_by_count_mem [of x xs] c r_def by simp
  then have r: "fst r \<in> set tools" "snd r = count_list tools (fst r)"
    using in_Counter [of "fst r" "snd r" tools] by simp_all
  have ge: "count_list tools u \<le> count_list tools (fst r)" for u
  proof (cases "u \<in> set tools")
    case True
    then have "(u, count_list tools u) \<in> set (x # xs)" using in_Counter [of u _ tools] c by simp
    then have "snd (u, count_list tools u) \<le> snd r"
      using max_by_count_ge [of _ xs x] max_by_count_ge_best [of x xs] r_def by auto
    with r show ?thesis by simp
  next
    case False
    then show ?thesis by simp
  qed
  have tie: "fst r \<in> set (takeWhile (\<lambda>y. y \<noteq> u) tools)"
    if u: "u \<in> set tools" "u \<noteq> fst r" "count_list tools u = count_list tools (fst r)" for u
  proof -
    let ?p = "(u, count_list tools u)"
    have pin: "?p \<in> set (Counter tools)" using in_Counter [of u _ tools] u(1) by simp
    have "?p \<notin> set (takeWhile (\<lambda>y. y \<noteq> r) (Counter tools))"
      using max_by_count_first [of ?p x xs] c r_def r(2) u(3) by auto
    moreover have "r \<noteq> ?p" using u(2) by auto
    ultimately have "r \<in> set (takeWhile (\<lambda>y. y \<noteq> ?p) (Counter tools))"
      using precedes_swap [OF rin] by blast
    then have mem: "fst r \<in> set (map fst (takeWhile (\<lambda>y. y \<noteq> ?p) (Counter tools)))"
      by (metis image_eqI set_map)
    have d: "distinct (map fst (Counter tools))"
      by (simp add: keys_Counter distinct_first_seen)
    have "map fst (takeWhile (\<lambda>y. y \<noteq> ?p) (Counter tools))
          = takeWhile (\<lambda>y. y \<noteq> u) (first_seen tools)"
      using takeWhile_map_fst [OF d pin] by (simp only: keys_Counter)
    with mem have "fst r \<in> set (takeWhile (\<lambda>y. y \<noteq> u) (first_seen tools))"
      by (simp only:)
    then show ?thesis by (rule first_seen_before)
  qed
  show ?thesis unfolding res using r(1) ge tie by simp
qed

theorem derived_tool_witness:
  "get_raw_steps_for_step_number
     \<lparr>rd_steps = Val
       [\<lparr>rs_step = Val 2, rs_phase = Absent, rs_tool = Val ''cursor''\<rparr>,
        \<lparr>rs_step = Val 2, rs_phase = Absent, rs_tool = Val ''claude''\<rparr>,
        \<lparr>rs_step = Val 1, rs_phase = Absent, rs_tool = Val ''claude''\<rparr>,
        \<lparr>rs_step = Val 2, rs_phase = Absent, rs_tool = Val ''''\<rparr>,
        \<lparr>rs_step = Val 2, rs_phase = Absent, rs_tool = Val ''claude''\<rparr>,
        \<lparr>rs_step = Val 2, rs_phase = Absent, rs_tool = Val ''cursor''\<rparr>]\<rparr> (Some 2)
   = Inr
       [\<lparr>rs_step = Val 2, rs_phase = Absent, rs_tool = Val ''cursor''\<rparr>,
        \<lparr>rs_step = Val 2, rs_phase = Absent, rs_tool = Val ''claude''\<rparr>,
        \<lparr>rs_step = Val 2, rs_phase = Absent, rs_tool = Val ''''\<rparr>,
        \<lparr>rs_step = Val 2, rs_phase = Absent, rs_tool = Val ''claude''\<rparr>,
        \<lparr>rs_step = Val 2, rs_phase = Absent, rs_tool = Val ''cursor''\<rparr>] \<and>
   extract_tool_from_raw_steps
       [\<lparr>rs_step = Val 2, rs_phase = Absent, rs_tool = Val ''cursor''\<rparr>,
        \<lparr>rs_step = Val 2, rs_phase = Absent, rs_tool = Val ''claude''\<rparr>,
        \<lparr>rs_step = Val 2, rs_phase = Absent, rs_tool = Val ''''\<rparr>,
        \<lparr>rs_step = Val 2, rs_phase = Absent, rs_tool = Val ''claude''\<rparr>,
        \<lparr>rs_step = Val 2, rs_phase = Absent, rs_tool = Val ''cursor''\<rparr>] = Some ''cursor'' \<and>
   (\<forall>u. count_list [''cursor'', ''claude'', ''claude'', ''cursor''] u
        \<le> count_list [''cursor'', ''claude'', ''claude'', ''cursor''] ''cursor'')"
proof -
  let ?subs = "[\<lparr>rs_step = Val 2, rs_phase = Absent, rs_tool = Val ''cursor''\<rparr>,
        \<lparr>rs_step = Val 2, rs_phase = Absent, rs_tool = Val ''claude''\<rparr>,
        \<lparr>rs_step = Val 2, rs_phase = Absent, rs_tool = Val ''''\<rparr>,
        \<lparr>rs_step = Val 2, rs_phase = Absent, rs_tool = Val ''claude''\<rparr>,
        \<lparr>rs_step = Val 2, rs_phase = Absent, rs_tool = Val ''cursor''\<rparr>]"
  let ?tools = "[''cursor'', ''claude'', ''claude'', ''cursor'']"
  have a: "get_raw_steps_for_step_number
     \<lparr>rd_steps = Val
       [\<lparr>rs_step = Val 2, rs_phase = Absent, rs_tool = Val ''cursor''\<rparr>,
        \<lparr>rs_step = Val 2, rs_phase = Absent, rs_tool = Val ''claude''\<rparr>,
        \<lparr>rs_step = Val 1, rs_phase = Absent, rs_tool = Val ''claude''\<rparr>,
        \<lparr>rs_step = Val 2, rs_phase = Absent, rs_tool = Val ''''\<rparr>,
        \<lparr>rs_step = Val 2, rs_phase = Absent, rs_tool = Val ''claude''\<rparr>,
        \<lparr>rs_step = Val 2, rs_phase = Absent, rs_tool = Val ''cursor''\<rparr>]\<rparr> (Some 2) = Inr ?subs"
    by (simp add: get_raw_steps_for_step_number_def)
  have b: "?tools = concat (map (\<lambda>s. nonempty_value (rs_tool s)) ?subs)" by simp
  have v: "extract_tool_from_raw_steps ?subs = Some ''cursor''"
    by (simp add: extract_tool_from_raw_steps_def Counter_def)
  note c = derived_tool_most_frequent_first [OF a b, unfolded v option.case]
  show ?thesis
    by (intro conjI a v conjunct1 [OF conjunct2 [OF c]])
qed

lemma error_messages_values:
  "[the (dict_get_default (fd_error f) []). f \<leftarrow> fs, truthy (dict_get (fd_error f))]
   = concat (map (\<lambda>f. nonempty_value (fd_error f)) fs)"
proof (induction fs)
  case Nil
  show ?case by simp
next
  case (Cons f fs)
  then show ?case by (cases "fd_error f") simp_all
qed

lemma no_nonempty_values:
  "concat (map (\<lambda>f. nonempty_value (g f)) fs) = [] \<longleftrightarrow>
   (\<forall>f \<in> set fs. \<not> truthy (dict_get (g f)))"
proof (induction fs)
  case Nil
  show ?case by simp
next
  case (Cons f fs)
  then show ?case by (cases "g f") simp_all
qed

text \<open>
  Claim C5. The error summary of a step is built from the failure records whose
  step equals the step number: their error messages that are present, not null and
  not empty are joined by \<^verbatim>\<open>" | "\<close>, and the joined text is cut to its first
  1000 characters, so the summary is never longer than that; the summary is unset
  exactly when every such record has an empty or absent message.
\<close>

theorem errors_summary_joined_then_truncated:
  "errors_summary_of (get_failures_for_step failures_details n) =
     (let msgs = concat (map (\<lambda>f. nonempty_value (fd_error f))
                   [f \<leftarrow> failures_details. dict_get (fd_step f) = n])
      in if msgs = [] then None else Some (take 1000 (join '' | '' msgs))) \<and>
   (case errors_summary_of (get_failures_for_step failures_details n) of
      None \<Rightarrow> True | Some s \<Rightarrow> length s \<le> 1000) \<and>
   (errors_summary_of (get_failures_for_step failures_details n) = None \<longleftrightarrow>
      (\<forall>f \<in> set failures_details.
          dict_get (fd_step f) = n \<longrightarrow> \<not> truthy (dict_get (fd_error f))))"
proof -
  let ?fs = "[f \<leftarrow> failures_details. dict_get (fd_step f) = n]"
  let ?msgs = "concat (map (\<lambda>f. nonempty_value (fd_error f)) ?fs)"
  have s: "errors_summary_of (get_failures_for_step failures_details n) =
           (if ?msgs = [] then None else Some (take 1000 (join '' | '' ?msgs)))"
    by (simp add: errors_summary_of_def get_failures_for_step_def Let_def
          error_messages_values)
  have n: "?msgs = [] \<longleftrightarrow>
      (\<forall>f \<in> set failures_details.
          dict_get (fd_step f) = n \<longrightarrow> \<not> truthy (dict_get (fd_error f)))"
    unfolding no_nonempty_values by auto
  show ?thesis
  proof (intro conjI)
    show "errors_summary_of (get_failures_for_step failures_details n) =
       (let msgs = ?msgs in if msgs = [] then None else Some (take 1000 (join '' | '' msgs)))"
      using s by (simp add: Let_def)
    show "case errors_summary_of (get_failures_for_step failures_details n) of
            None \<Rightarrow> True | Some s \<Rightarrow> length s \<le> 1000"
      unfolding s by simp
    show "errors_summary_of (get_failures_for_step failures_details n) = None \<longleftrightarrow>
      (\<forall>f \<in> set failures_details.
          dict_get (fd_step f) = n \<longrightarrow> \<not> truthy (dict_get (fd_error f)))"
      unfolding s using n by simp
  qed
qed

theorem errors_summary_witness:
  "errors_summary_of (get_failures_for_step
     [\<lparr>fd_step = Val 3, fd_build_phase = Absent, fd_phase = Absent, fd_category = Absent,
       fd_error = Val ''boom'', fd_exit_code = Val 1\<rparr>,
      \<lparr>fd_step = Val 4, fd_build_phase = Absent, fd_phase = Absent, fd_category = Absent,
       fd_error = Val ''other step'', fd_exit_code = Absent\<rparr>,
      \<lparr>fd_step = Val 3, fd_build_phase = Absent, fd_phase = Absent, fd_category = Absent,
       fd_error = Val '''', fd_exit_code = Absent\<rparr>,
      \<lparr>fd_step = Val 3, fd_build_phase = Absent, fd_phase = Absent, fd_category = Absent,
       fd_error = Val ''bang'', fd_exit_code = Absent\<rparr>] (Some 3))
   = Some ''boom | bang''"
proof -
  let ?fds = "[\<lparr>fd_step = Val 3, fd_build_phase = Absent, fd_phase = Absent, fd_category = Absent,
       fd_error = Val ''boom'', fd_exit_code = Val 1\<rparr>,
      \<lparr>fd_step = Val 4, fd_build_phase = Absent, fd_phase = Absent, fd_category = Absent,
       fd_error = Val ''other step'', fd_exit_code = Absent\<rparr>,
      \<lparr>fd_step = Val 3, fd_build_phase = Absent, fd_phase = Absent, fd_category = Absent,
       fd_error = Val '''', fd_exit_code = Absent\<rparr>,
      \<lparr>fd_step = Val 3, fd_build_phase = Absent, fd_phase = Absent, fd_category = Absent,
       fd_error = Val ''bang'', fd_exit_code = Absent\<rparr>]"
  note c = conjunct1 [OF errors_summary_joined_then_truncated [of ?fds "Some 3"]]
  show ?thesis unfolding c by simp
qed

section \<open>Connections and transactions\<close>

lemma committed_execute_delete [simp]: "committed (execute_delete c t rid) = committed c"
  by (simp add: execute_delete_def)

lemma committed_delete_run_data [simp]: "committed (delete_run_data c rid) = committed c"
  by (simp add: delete_run_data_def)

lemma committed_execute_insert_step [simp]:
  "committed (execute_insert_step c row) = committed c"
  by (simp add: execute_insert_step_def)

lemma committed_execute_insert_failure [simp]:
  "committed (execute_insert_failure c row) = committed c"
  by (simp add: execute_insert_failure_def)

lemma committed_execute_insert_search [simp]:
  "committed (execute_insert_search c row) = committed c"
  by (simp add: execute_insert_search_def)

lemma committed_insert_failures [simp]:
  "committed (foldl execute_insert_failure c rows) = committed c"
  by (induction rows arbitrary: c) simp_all

lemma committed_insert_searches [simp]:
  "committed (foldl execute_insert_search c rows) = committed c"
  by (induction rows arbitrary: c) simp_all

lemma committed_execute_insert_run:
  "execute_insert_run c row = Inl (e, c') \<Longrightarrow> committed c' = committed c"
  "execute_insert_run c row = Inr c'' \<Longrightarrow> committed c'' = committed c"
  by (auto simp: execute_insert_run_def split: if_splits)

lemma committed_insert_steps:
  "insert_steps c rid rd fd sos = Inl (e, c') \<Longrightarrow> committed c' = committed c"
  "insert_steps c rid rd fd sos = Inr c'' \<Longrightarrow> committed c'' = committed c"
  by (induction sos arbitrary: c) (auto split: sum.splits)

lemma committed_ingest_single_report:
  "ingest_single_report c f = Inl (e, c') \<Longrightarrow> committed c' = committed c"
  unfolding ingest_single_report_def Let_def
  by (auto split: sum.splits option.splits if_splits
      dest!: committed_execute_insert_run committed_insert_steps)

lemma ingest_transaction_atomic:
  "ingest_transaction force d f rid = Inl (e, d') \<Longrightarrow> d' = d"
  unfolding ingest_transaction_def Let_def
  by (auto split: sum.splits prod.splits if_splits simp: release_def get_db_def
      dest!: committed_ingest_single_report)

lemma try_file_error_store: "try_file force d f = Inl (e, d') \<Longrightarrow> d' = d"
  unfolding try_file_def Let_def
  by (auto split: sum.splits option.splits if_splits dest: ingest_transaction_atomic)

lemma work_execute_delete:
  "work (execute_delete c t rid) = delete_where_run_id t rid (work c)"
  "executed (execute_delete c t rid) = executed c @ [Delete_Where_Run_Id t rid]"
  by (simp_all add: execute_delete_def)

lemma iterate_entries: "iterate v = Inr xs \<Longrightarrow> xs = entries v"
  by (cases v) auto

lemma work_insert_steps:
  "insert_steps c rid rd fd sos = Inr c' \<Longrightarrow>
   \<exists>rows. list_all2 (\<lambda>so row. step_row_of rid rd fd so = Inr row) sos rows \<and>
          work c' = (work c)\<lparr>steps := steps (work c) @ rows\<rparr>"
proof (induction sos arbitrary: c)
  case Nil
  then show ?case by simp
next
  case (Cons so sos)
  from Cons.prems obtain row where row: "step_row_of rid rd fd so = Inr row"
    and rest: "insert_steps (execute_insert_step c row) rid rd fd sos = Inr c'"
    by (auto split: sum.splits)
  from Cons.IH [OF rest] obtain rows
    where rows: "list_all2 (\<lambda>so row. step_row_of rid rd fd so = Inr row) sos rows"
      and w: "work c' = (work (execute_insert_step c row))
                 \<lparr>steps := steps (work (execute_insert_step c row)) @ rows\<rparr>"
    by blast
  have "list_all2 (\<lambda>so row. step_row_of rid rd fd so = Inr row) (so # sos) (row # rows)"
    using row rows by simp
  moreover have "work c' = (work c)\<lparr>steps := steps (work c) @ (row # rows)\<rparr>"
    using w by (simp add: execute_insert_step_def)
  ultimately show ?case by blast
qed

lemma work_insert_failures:
  "work (foldl execute_insert_failure c rows) = (work c)\<lparr>failures := failures (work c) @ rows\<rparr>"
  by (induction rows arbitrary: c) (simp_all add: execute_insert_failure_def)

lemma work_insert_searches:
  "work (foldl execute_insert_search c rows)
   = (work c)\<lparr>web_searches := web_searches (work c) @ rows\<rparr>"
  by (induction rows arbitrary: c) (simp_all add: execute_insert_search_def)

lemma work_execute_insert_run:
  "execute_insert_run c row = Inr c' \<Longrightarrow> work c' = (work c)\<lparr>runs := runs (work c) @ [row]\<rparr>"
  by (auto simp: execute_insert_run_def split: if_splits)

lemma section_get_failures:
  "section_get (rp_failures data) empty_failures = Inr s \<Longrightarrow>
   fs_details s = failures_details_field data"
  by (cases "rp_failures data") (auto simp: empty_failures_def)

lemma and_then_Inr [simp]: "and_then m k = Inr y \<longleftrightarrow> (\<exists>x. m = Inr x \<and> k x = Inr y)"
  by (cases m) (simp_all add: and_then_def)

lemma and_then_Inl [simp]:
  "and_then m k = Inl z \<longleftrightarrow> m = Inl z \<or> (\<exists>x. m = Inr x \<and> k x = Inl z)"
  by (cases m) (simp_all add: and_then_def)

lemma raised_in_Inr [simp]: "raised_in c m = Inr x \<longleftrightarrow> m = Inr x"
  by (cases m) (simp_all add: raised_in_def)

lemma raised_in_Inl [simp]: "raised_in c m = Inl z \<longleftrightarrow> (\<exists>e. m = Inl e \<and> z = (e, c))"
  by (cases m) (auto simp: raised_in_def)

lemma ingest_single_report_sequence:
  "ingest_single_report c f =
     and_then (raised_in c (json_load (content f))) (\<lambda>doc.
       case doc of
         None \<Rightarrow> Inl (TypeError, c)
       | Some data \<Rightarrow>
           if rp_run_id data = Absent then Inl (KeyError, c)
           else
             and_then (raised_in c (run_row_of (clock f) (dict_get (rp_run_id data)) data)) (\<lambda>row.
             and_then (execute_insert_run c row) (\<lambda>c1.
             and_then (raised_in c1 (section_get (rp_failures data) empty_failures)) (\<lambda>fsec.
             and_then (raised_in c1 (iterate (rp_step_outcomes data))) (\<lambda>sos.
             and_then (insert_steps c1 (dict_get (rp_run_id data)) (rp_raw_data data)
                         (fs_details fsec) sos) (\<lambda>c2.
             and_then (raised_in c2 (iterate (fs_details fsec))) (\<lambda>fds.
             and_then (raised_in
                         (foldl execute_insert_failure c2
                            (map (failure_row_of (dict_get (rp_run_id data))) fds))
                         (iterate (rp_web_searches data))) (\<lambda>searches.
               Inr (foldl execute_insert_search
                      (foldl execute_insert_failure c2
                         (map (failure_row_of (dict_get (rp_run_id data))) fds))
                      (map (search_row_of (dict_get (rp_run_id data))) searches),
                    dict_get (rp_run_id data))))))))))"
  unfolding ingest_single_report_def and_then_def raised_in_def Let_def
  by (simp split: sum.splits option.splits)

lemma ingest_single_report_writes:
  assumes "ingest_single_report c f = Inr (c', rid)"
  shows "\<exists>data row rows.
           json_load (content f) = Inr (Some data) \<and>
           rid = dict_get (rp_run_id data) \<and>
           run_row_of (clock f) rid data = Inr row \<and>
           list_all2 (\<lambda>so r. step_row_of rid (rp_raw_data data) (failures_details_field data) so = Inr r)
             (entries (rp_step_outcomes data)) rows \<and>
           runs (work c') = runs (work c) @ [row] \<and>
           steps (work c') = steps (work c) @ rows \<and>
           failures (work c')
             = failures (work c) @ map (failure_row_of rid) (entries (failures_details_field data)) \<and>
           web_searches (work c')
             = web_searches (work c) @ map (search_row_of rid) (entries (rp_web_searches data))"
proof -
  from assms obtain data where data: "json_load (content f) = Inr (Some data)"
    and present: "rp_run_id data \<noteq> Absent"
    unfolding ingest_single_report_sequence
    by (auto split: option.splits if_splits)
  let ?rid = "dict_get (rp_run_id data)"
  from assms data present obtain row c1 fsec sos c2 fds searches where
    row: "run_row_of (clock f) ?rid data = Inr row" and
    c1: "execute_insert_run c row = Inr c1" and
    fsec: "section_get (rp_failures data) empty_failures = Inr fsec" and
    sos: "iterate (rp_step_outcomes data) = Inr sos" and
    c2: "insert_steps c1 ?rid (rp_raw_data data) (fs_details fsec) sos = Inr c2" and
    fds: "iterate (fs_details fsec) = Inr fds" and
    searches: "iterate (rp_web_searches data) = Inr searches" and
    c': "c' = foldl execute_insert_search
                (foldl execute_insert_failure c2 (map (failure_row_of ?rid) fds))
                (map (search_row_of ?rid) searches)" and
    rid: "rid = ?rid"
    unfolding ingest_single_report_sequence
    by auto
  note fd = section_get_failures [OF fsec]
  from work_insert_steps [OF c2] obtain rows where
    rows: "list_all2 (\<lambda>so r. step_row_of ?rid (rp_raw_data data) (fs_details fsec) so = Inr r) sos rows"
    and w2: "work c2 = (work c1)\<lparr>steps := steps (work c1) @ rows\<rparr>"
    by blast
  have w1: "work c1 = (work c)\<lparr>runs := runs (work c) @ [row]\<rparr>"
    by (rule work_execute_insert_run [OF c1])
  have "runs (work c') = runs (work c) @ [row]"
    "steps (work c') = steps (work c) @ rows"
    "failures (work c') = failures (work c) @ map (failure_row_of rid) (entries (failures_details_field data))"
    "web_searches (work c')
             = web_searches (work c) @ map (search_row_of rid) (entries (rp_web_searches data))"
    unfolding c' work_insert_searches work_insert_failures w2 w1 rid
    using iterate_entries [OF fds] iterate_entries [OF searches] fd by simp_all
  moreover have "list_all2 (\<lambda>so r. step_row_of rid (rp_raw_data data) (failures_details_field data) so = Inr r)
             (entries (rp_step_outcomes data)) rows"
    using rows iterate_entries [OF sos] fd rid by simp
  ultimately show ?thesis using data row rid by blast
qed

lemma work_delete_run_data: "work (delete_run_data (get_db d) rid) = without_run d rid"
  by (simp add: delete_run_data_def work_execute_delete get_db_def without_run_def)

text \<open>The definitions unfolded to run the worked example.\<close>

lemmas eval_defs =
  ingest_transaction_def ingest_single_report_def get_db_def commit_def release_def
  run_exists_def delete_run_data_def execute_delete_def execute_insert_run_def
  execute_insert_step_def execute_insert_failure_def execute_insert_search_def
  run_row_of_def step_row_of_def failure_row_of_def search_row_of_def
  example_file_def broken_file_def example_report_def empty_db_def
  empty_summary_def empty_tools_config_def empty_supabase_specific_def
  empty_token_usage_def empty_raw_data_def empty_failures_def
  get_raw_steps_for_step_number_def extract_phase_from_raw_steps_def
  extract_tool_from_raw_steps_def get_failures_for_step_def errors_summary_of_def
  fromkeys_def Counter_def or_none_def str_int_def digit_char_def char_of_def bit_0
  Let_def

lemma and_then_simps [simp]:
  "and_then (Inl e) k = Inl e"
  "and_then (Inr x) k = k x"
  by (simp_all add: and_then_def)

lemma raised_in_simps [simp]:
  "raised_in c (Inl e) = Inl (e, c)"
  "raised_in c (Inr x) = Inr x"
  by (simp_all add: raised_in_def)

lemma isl_and_then: "isl (and_then m k) \<longleftrightarrow> isl m \<or> (\<exists>x. m = Inr x \<and> isl (k x))"
  by (cases m) simp_all

lemma isl_raised_in: "isl (raised_in c m) = isl m"
  by (cases m) simp_all

lemma ex_Inr: "(\<exists>x. m = Inr x) \<longleftrightarrow> \<not> isl m"
  by (cases m) simp_all

lemma isl_insert_steps:
  "isl (insert_steps c rid rd fd sos) = list_ex (\<lambda>so. isl (step_row_of rid rd fd so)) sos"
proof (induction sos arbitrary: c)
  case Nil
  show ?case by simp
next
  case (Cons so sos)
  show ?case by (cases "step_row_of rid rd fd so") (simp_all add: Cons.IH)
qed

lemma run_row_of_run_id: "run_row_of t rid data = Inr row \<Longrightarrow> r_run_id row = rid"
  unfolding run_row_of_def by (auto split: sum.splits)

lemma execute_insert_run_fresh:
  "r_run_id row = Some rid \<Longrightarrow> \<not> run_exists (work c) rid \<Longrightarrow>
   execute_insert_run c row
   = Inr (c\<lparr>work := (work c)\<lparr>runs := runs (work c) @ [row]\<rparr>,
            executed := executed c @ [Insert_Into Runs]\<rparr>)"
  by (simp add: execute_insert_run_def)

lemma isl_run_row_of: "isl (run_row_of t rid data) = isl (run_row_of t' rid data)"
  unfolding run_row_of_def by (simp split: sum.splits)

lemma ingest_single_report_raises_alike:
  assumes same: "content f' = content f"
    and data: "json_load (content f) = Inr (Some data)"
    and rid: "dict_get (rp_run_id data) = Some rid"
    and c: "\<not> run_exists (work c) rid" and c': "\<not> run_exists (work c') rid"
  shows "isl (ingest_single_report c f) = isl (ingest_single_report c' f')"
proof -
  from rid have present: "rp_run_id data \<noteq> Absent" by (cases "rp_run_id data") auto
  from data same have data': "json_load (content f') = Inr (Some data)" by simp
  show ?thesis
  proof (cases "run_row_of (clock f) (Some rid) data")
    case (Inl e)
    then have "isl (run_row_of (clock f') (Some rid) data)"
      using isl_run_row_of [of "clock f'" "Some rid" data "clock f"] by simp
    then obtain e' where "run_row_of (clock f') (Some rid) data = Inl e'"
      by (cases "run_row_of (clock f') (Some rid) data") auto
    with Inl show ?thesis
      unfolding ingest_single_report_sequence using data data' rid present by simp
  next
    case (Inr row)
    then have "\<not> isl (run_row_of (clock f') (Some rid) data)"
      using isl_run_row_of [of "clock f'" "Some rid" data "clock f"] by simp
    then obtain row' where Inr': "run_row_of (clock f') (Some rid) data = Inr row'"
      by (cases "run_row_of (clock f') (Some rid) data") auto
    from Inr have rr: "r_run_id row = Some rid" by (rule run_row_of_run_id)
    from Inr' have rr': "r_run_id row' = Some rid" by (rule run_row_of_run_id)
    note e1 = execute_insert_run_fresh [OF rr c]
    note e2 = execute_insert_run_fresh [OF rr' c']
    show ?thesis
      unfolding ingest_single_report_sequence using data data' rid present Inr Inr' e1 e2
      by (simp add: isl_and_then isl_raised_in isl_insert_steps ex_Inr)
  qed
qed

text \<open>
  Claim C8. Deleting the data of a run removes from each of the four tables exactly
  the rows whose \<^verbatim>\<open>run_id\<close> is the identifier and keeps every other row, in its
  place; the four statements are issued in the order web searches, failures, steps,
  runs; nothing is committed by the deletion itself.
\<close>

theorem delete_run_data_cascade:
  "work (delete_run_data c rid) =
     \<lparr>runs = [r \<leftarrow> runs (work c). r_run_id r \<noteq> Some rid],
      steps = [s \<leftarrow> steps (work c). s_run_id s \<noteq> Some rid],
      failures = [f \<leftarrow> failures (work c). f_run_id f \<noteq> Some rid],
      web_searches = [w \<leftarrow> web_searches (work c). w_run_id w \<noteq> Some rid]\<rparr> \<and>
   executed (delete_run_data c rid) =
     executed c @
       [Delete_Where_Run_Id Web_Searches rid, Delete_Where_Run_Id Failures rid,
        Delete_Where_Run_Id Steps rid, Delete_Where_Run_Id Runs rid] \<and>
   committed (delete_run_data c rid) = committed c"
  by (simp add: delete_run_data_def work_execute_delete execute_delete_def)

theorem delete_run_data_witness:
  "work (delete_run_data
           (get_db \<lparr>runs = [], steps = [example_step, example_step\<lparr>s_run_id := Some ''r2''\<rparr>],
                    failures = [example_failure], web_searches = []\<rparr>) ''r1'')
   = \<lparr>runs = [], steps = [example_step\<lparr>s_run_id := Some ''r2''\<rparr>], failures = [],
      web_searches = []\<rparr>"
  using delete_run_data_cascade
    [where c = "get_db \<lparr>runs = [], steps = [example_step, example_step\<lparr>s_run_id := Some ''r2''\<rparr>],
                    failures = [example_failure], web_searches = []\<rparr>" and rid = "''r1''"]
  by (simp add: get_db_def example_step_def example_failure_def)


text \<open>
  Claim C2. The transaction of one report file either raises and leaves the store
  as it was, also when under force the records of the prior run had already been
  deleted on the connection, or it commits, on top of the store (without the prior
  run's records under force), exactly one run record, one step record per entry of
  \<^verbatim>\<open>step_outcomes\<close>, one failure record per entry of \<^verbatim>\<open>failures.details\<close> and one
  search record per entry of \<^verbatim>\<open>web_searches\<close>.
\<close>

theorem ingest_transaction_all_or_nothing:
  "case ingest_transaction force d f rid of
     Inl (e, d') \<Rightarrow> d' = d
   | Inr d' \<Rightarrow>
       (\<exists>data row rows.
           json_load (content f) = Inr (Some data) \<and>
           run_row_of (clock f) (dict_get (rp_run_id data)) data = Inr row \<and>
           list_all2
             (\<lambda>so r. step_row_of (dict_get (rp_run_id data)) (rp_raw_data data)
                        (failures_details_field data) so = Inr r)
             (entries (rp_step_outcomes data)) rows \<and>
           length rows = length (entries (rp_step_outcomes data)) \<and>
           d' = (let base = (if force \<and> run_exists d rid then without_run d rid else d)
                 in \<lparr>runs = runs base @ [row],
                     steps = steps base @ rows,
                     failures = failures base @
                       map (failure_row_of (dict_get (rp_run_id data)))
                         (entries (failures_details_field data)),
                     web_searches = web_searches base @
                       map (search_row_of (dict_get (rp_run_id data)))
                         (entries (rp_web_searches data))\<rparr>))"
proof (cases "ingest_transaction force d f rid")
  case (Inl ed)
  then show ?thesis using ingest_transaction_atomic [of force d f rid "fst ed" "snd ed"]
    by (simp add: case_prod_beta)
next
  case (Inr d')
  let ?base = "if force \<and> run_exists d rid then without_run d rid else d"
  let ?c = "if force \<and> run_exists d rid then delete_run_data (get_db d) rid else get_db d"
  from Inr obtain c' r where ok: "ingest_single_report ?c f = Inr (c', r)"
    and d': "d' = work c'"
    unfolding ingest_transaction_def Let_def
    by (auto split: sum.splits prod.splits simp: release_def commit_def)
  have base: "work ?c = ?base"
  proof (cases "force \<and> run_exists d rid")
    case True
    then show ?thesis by (simp add: work_delete_run_data)
  next
    case False
    then show ?thesis by (auto simp: get_db_def)
  qed
  from ingest_single_report_writes [OF ok] obtain data row rows where
    a: "json_load (content f) = Inr (Some data)"
      "r = dict_get (rp_run_id data)"
      "run_row_of (clock f) r data = Inr row"
      "list_all2 (\<lambda>so ro. step_row_of r (rp_raw_data data) (failures_details_field data) so = Inr ro)
             (entries (rp_step_outcomes data)) rows"
      "runs (work c') = runs (work ?c) @ [row]"
      "steps (work c') = steps (work ?c) @ rows"
      "failures (work c')
             = failures (work ?c) @ map (failure_row_of r) (entries (failures_details_field data))"
      "web_searches (work c')
             = web_searches (work ?c) @ map (search_row_of r) (entries (rp_web_searches data))"
    by blast
  have len: "length rows = length (entries (rp_step_outcomes data))"
    using list_all2_lengthD [OF a(4)] by simp
  have "d' = \<lparr>runs = runs ?base @ [row],
                     steps = steps ?base @ rows,
                     failures = failures ?base @
                       map (failure_row_of (dict_get (rp_run_id data)))
                         (entries (failures_details_field data)),
                     web_searches = web_searches ?base @
                       map (search_row_of (dict_get (rp_run_id data)))
                         (entries (rp_web_searches data))\<rparr>"
    unfolding d' using a(5-8) unfolding base a(2) by (cases "work c'") simp
  with a(1,3,4) len show ?thesis unfolding Inr a(2) by (auto simp: Let_def)
qed

theorem ingest_transaction_witness:
  "\<not> isl (ingest_transaction False empty_db example_file ''r1'') \<and>
   length (runs (projr (ingest_transaction False empty_db example_file ''r1''))) = 1 \<and>
   length (steps (projr (ingest_transaction False empty_db example_file ''r1''))) = 2 \<and>
   (\<exists>e. ingest_transaction True
          (projr (ingest_transaction False empty_db example_file ''r1'')) broken_file ''r1''
        = Inl (e, projr (ingest_transaction False empty_db example_file ''r1'')))"
proof -
  let ?r = "ingest_transaction False empty_db example_file ''r1''"
  have ok: "\<not> isl ?r" by (simp add: eval_defs)
  then obtain d1 where d1: "?r = Inr d1" by (cases ?r) auto
  have "length (runs d1) = 1 \<and> length (steps d1) = 2"
    using ingest_transaction_all_or_nothing
      [where force = False and d = empty_db and f = example_file and rid = "''r1''"]
    unfolding d1
    by (auto simp: example_file_def example_report_def empty_db_def)
  then have len: "length (runs (projr ?r)) = 1" "length (steps (projr ?r)) = 2"
    by (simp_all add: d1)
  let ?b = "ingest_transaction True (projr ?r) broken_file ''r1''"
  have "isl ?b" by (simp add: eval_defs)
  then obtain e d' where b: "?b = Inl (e, d')" by (cases ?b) auto
  have "d' = projr ?r"
    using ingest_transaction_all_or_nothing
      [where force = True and d = "projr ?r" and f = broken_file and rid = "''r1''"]
    unfolding b by simp
  with b have "\<exists>e. ?b = Inl (e, projr ?r)" by blast
  with ok len show ?thesis by (intro conjI)
qed

section \<open>The loop over the files\<close>

lemma process_file_outcome:
  "process_file force (r, d) f =
     (count_outcome r (fst (outcome_step force d f)), snd (outcome_step force d f))"
  by (simp add: process_file_def outcome_step_def split: sum.splits prod.splits)

lemma foldl_process_file:
  "fst (foldl (process_file force) (r, d) fs) = foldl count_outcome r (outcomes force d fs)"
  by (induction fs arbitrary: r d) (simp_all add: process_file_outcome)

lemma length_outcomes: "length (outcomes force d fs) = length fs"
  by (induction fs arbitrary: d) simp_all

lemma foldl_count_outcome:
  "ingested (foldl count_outcome r os) = ingested r + count_list os Ingested \<and>
   skipped (foldl count_outcome r os) = skipped r + count_list os Skipped \<and>
   errors (foldl count_outcome r os) = errors r + count_list os Error"
proof (induction os arbitrary: r)
  case Nil
  show ?case by simp
next
  case (Cons oc os)
  show ?case by (cases oc) (simp_all add: Cons.IH)
qed

lemma count_list_outcomes:
  "count_list os Ingested + count_list os Skipped + count_list os Error = length os"
proof (induction os)
  case Nil
  show ?case by simp
next
  case (Cons oc os)
  then show ?case by (cases oc) simp_all
qed

lemma snd_foldl_process_file:
  "snd (foldl (process_file force) (r, d) fs) = store_after force d fs"
  by (induction fs arbitrary: r d) (simp_all add: process_file_outcome)

lemma ingest_reports_foldl:
  "ingest_reports force (Some fs) d
   = foldl (process_file force) (\<lparr>ingested = 0, skipped = 0, errors = 0\<rparr>, d) fs"
  by (cases fs) (simp_all add: ingest_reports_def Let_def)

lemma snd_ingest_reports: "snd (ingest_reports force (Some fs) d) = store_after force d fs"
  by (simp add: ingest_reports_foldl snd_foldl_process_file)

lemma fst_ingest_reports:
  "fst (ingest_reports force (Some fs) d)
   = foldl count_outcome \<lparr>ingested = 0, skipped = 0, errors = 0\<rparr> (outcomes force d fs)"
  by (simp add: ingest_reports_foldl foldl_process_file)

lemma store_after_append:
  "store_after force d (xs @ ys) = store_after force (store_after force d xs) ys"
  by (induction xs arbitrary: d) simp_all

lemma outcomes_append:
  "outcomes force d (xs @ ys) = outcomes force d xs @ outcomes force (store_after force d xs) ys"
  by (induction xs arbitrary: d) simp_all

lemma parse_failure_outcome:
  "parse_failure f \<Longrightarrow> outcome_step force d f = (Error, d)"
  by (auto simp: parse_failure_def outcome_step_def try_file_def split: sum.splits option.splits)

lemma missing_run_id_outcome:
  "missing_run_id f \<Longrightarrow> outcome_step force d f = (Error, d)"
  by (auto simp: missing_run_id_def outcome_step_def try_file_def split: sum.splits option.splits)

lemma write_failure_outcome:
  assumes "write_failure force d f"
  shows "outcome_step force d f = (Error, d)"
proof -
  from assms obtain data where data: "json_load (content f) = Inr (Some data)"
    and rid: "truthy (dict_get (rp_run_id data))"
    and go: "force \<or> \<not> run_exists d (the (dict_get (rp_run_id data)))"
    and fails: "isl (ingest_transaction force d f (the (dict_get (rp_run_id data))))"
    by (auto simp: write_failure_def split: sum.splits option.splits)
  from fails obtain e d' where
    t: "ingest_transaction force d f (the (dict_get (rp_run_id data))) = Inl (e, d')"
    by (cases "ingest_transaction force d f (the (dict_get (rp_run_id data)))") auto
  then have "d' = d" by (rule ingest_transaction_atomic)
  with t data rid go show ?thesis
    by (auto simp: outcome_step_def try_file_def Let_def)
qed

lemma failure_outcome:
  "parse_failure f \<or> missing_run_id f \<or> write_failure force d f \<Longrightarrow>
   outcome_step force d f = (Error, d)"
  using parse_failure_outcome missing_run_id_outcome write_failure_outcome by blast

text \<open>
  Claim C10. Without a reports directory, or with a directory in which no file
  matches, \<^verbatim>\<open>ingest_reports\<close> returns three zeros and leaves the store alone.
  Otherwise every file reaches one outcome, each counter is the number of files with
  its outcome, and the three counters add up to the number of files.
\<close>

theorem ingest_reports_counts_every_file:
  "ingest_reports force None d = (\<lparr>ingested = 0, skipped = 0, errors = 0\<rparr>, d) \<and>
   ingest_reports force (Some []) d = (\<lparr>ingested = 0, skipped = 0, errors = 0\<rparr>, d) \<and>
   length (outcomes force d report_files) = length report_files \<and>
   ingested (fst (ingest_reports force (Some report_files) d))
     = count_list (outcomes force d report_files) Ingested \<and>
   skipped (fst (ingest_reports force (Some report_files) d))
     = count_list (outcomes force d report_files) Skipped \<and>
   errors (fst (ingest_reports force (Some report_files) d))
     = count_list (outcomes force d report_files) Error \<and>
   ingested (fst (ingest_reports force (Some report_files) d))
     + skipped (fst (ingest_reports force (Some report_files) d))
     + errors (fst (ingest_reports force (Some report_files) d)) = length report_files"
proof -
  let ?z = "\<lparr>ingested = 0, skipped = 0, errors = 0\<rparr>"
  have r: "fst (ingest_reports force (Some report_files) d)
           = foldl count_outcome ?z (outcomes force d report_files)"
    by (cases report_files) (simp_all add: ingest_reports_def process_file_outcome foldl_process_file)
  have c: "ingested (fst (ingest_reports force (Some report_files) d))
             = count_list (outcomes force d report_files) Ingested"
      "skipped (fst (ingest_reports force (Some report_files) d))
             = count_list (outcomes force d report_files) Skipped"
      "errors (fst (ingest_reports force (Some report_files) d))
             = count_list (outcomes force d report_files) Error"
    unfolding r using foldl_count_outcome [of ?z "outcomes force d report_files"] by simp_all
  have t: "count_list (outcomes force d report_files) Ingested
           + count_list (outcomes force d report_files) Skipped
           + count_list (outcomes force d report_files) Error = length report_files"
    using count_list_outcomes [of "outcomes force d report_files"]
    by (simp add: length_outcomes)
  show ?thesis
    unfolding c using t by (simp add: ingest_reports_def length_outcomes)
qed

theorem ingest_reports_counts_witness:
  "fst (ingest_reports False (Some [broken_file, example_file, example_file]) empty_db)
   = \<lparr>ingested = 1, skipped = 1, errors = 1\<rparr>"
proof -
  let ?fs = "[broken_file, example_file, example_file]"
  note t = ingest_reports_counts_every_file
    [where force = False and report_files = ?fs and d = empty_db]
  have o: "outcomes False empty_db ?fs = [Error, Ingested, Skipped]"
    by (simp add: outcome_step_def try_file_def eval_defs)
  from t have "ingested (fst (ingest_reports False (Some ?fs) empty_db)) = 1"
    "skipped (fst (ingest_reports False (Some ?fs) empty_db)) = 1"
    "errors (fst (ingest_reports False (Some ?fs) empty_db)) = 1"
    unfolding o by simp_all
  then show ?thesis by (cases "fst (ingest_reports False (Some ?fs) empty_db)") simp
qed

text \<open>
  Claim C3. A candidate file that fails, by a parse failure, a missing
  \<^verbatim>\<open>run_id\<close> or a failure inside its transaction, counts one error and leaves the
  store as it found it; the files after it are processed from that same store. So
  the run with the failing file ends in the same store, and with the same outcome
  for every other file, as the run without it, with one error more.
  \<^verbatim>\<open>ingest_reports\<close> returns its counters in every case: each exception of the
  body of the loop is caught by one of the three handlers.
\<close>

theorem failing_file_is_counted_and_skipped_over:
  assumes "d1 = snd (ingest_reports force (Some before) d)"
    and "parse_failure f \<or> missing_run_id f \<or> write_failure force d1 f"
  shows "process_file force (r, d1) f = (r\<lparr>errors := errors r + 1\<rparr>, d1) \<and>
         outcomes force d (before @ f # rest)
           = outcomes force d before @ Error # outcomes force d1 rest \<and>
         outcomes force d (before @ rest) = outcomes force d before @ outcomes force d1 rest \<and>
         snd (ingest_reports force (Some (before @ f # rest)) d)
           = snd (ingest_reports force (Some (before @ rest)) d) \<and>
         ingested (fst (ingest_reports force (Some (before @ f # rest)) d))
           = ingested (fst (ingest_reports force (Some (before @ rest)) d)) \<and>
         skipped (fst (ingest_reports force (Some (before @ f # rest)) d))
           = skipped (fst (ingest_reports force (Some (before @ rest)) d)) \<and>
         errors (fst (ingest_reports force (Some (before @ f # rest)) d))
           = errors (fst (ingest_reports force (Some (before @ rest)) d)) + 1"
proof -
  have d1: "d1 = store_after force d before" using assms(1) by (simp add: snd_ingest_reports)
  have o: "outcome_step force d1 f = (Error, d1)" by (rule failure_outcome [OF assms(2)])
  have p: "process_file force (r, d1) f = (r\<lparr>errors := errors r + 1\<rparr>, d1)"
    by (simp add: process_file_outcome o)
  have o1: "outcomes force d (before @ f # rest)
           = outcomes force d before @ Error # outcomes force d1 rest"
    by (simp add: outcomes_append d1 [symmetric] o)
  have o2: "outcomes force d (before @ rest) = outcomes force d before @ outcomes force d1 rest"
    by (simp add: outcomes_append d1 [symmetric])
  have s: "snd (ingest_reports force (Some (before @ f # rest)) d)
           = snd (ingest_reports force (Some (before @ rest)) d)"
    by (simp add: snd_ingest_reports store_after_append d1 [symmetric] o)
  have c: "ingested (fst (ingest_reports force (Some (before @ f # rest)) d))
           = ingested (fst (ingest_reports force (Some (before @ rest)) d))"
    "skipped (fst (ingest_reports force (Some (before @ f # rest)) d))
           = skipped (fst (ingest_reports force (Some (before @ rest)) d))"
    "errors (fst (ingest_reports force (Some (before @ f # rest)) d))
           = errors (fst (ingest_reports force (Some (before @ rest)) d)) + 1"
    unfolding fst_ingest_reports o1 o2 by (simp_all add: foldl_count_outcome)
  from p o1 o2 s c show ?thesis by (intro conjI)
qed

theorem failing_file_witness:
  "write_failure False empty_db broken_file \<and>
   fst (ingest_reports False (Some [broken_file, example_file]) empty_db)
     = \<lparr>ingested = 1, skipped = 0, errors = 1\<rparr> \<and>
   snd (ingest_reports False (Some [broken_file, example_file]) empty_db)
     = snd (ingest_reports False (Some [example_file]) empty_db)"
proof -
  have w: "write_failure False empty_db broken_file"
    by (simp add: write_failure_def eval_defs)
  have d: "empty_db = snd (ingest_reports False (Some []) empty_db)"
    by (simp add: ingest_reports_def)
  note t = failing_file_is_counted_and_skipped_over
    [where before = "[]" and rest = "[example_file]" and r = "\<lparr>ingested = 0, skipped = 0, errors = 0\<rparr>",
     OF d disjI2 [OF disjI2 [OF w]], simplified]
  have one: "fst (ingest_reports False (Some [example_file]) empty_db)
             = \<lparr>ingested = 1, skipped = 0, errors = 0\<rparr>"
    by (simp add: ingest_reports_def process_file_def try_file_def eval_defs)
  have "fst (ingest_reports False (Some [broken_file, example_file]) empty_db)
     = \<lparr>ingested = 1, skipped = 0, errors = 1\<rparr>"
    using t one by (cases "fst (ingest_reports False (Some [broken_file, example_file]) empty_db)") simp
  with w t show ?thesis by simp
qed

section \<open>Running the ingestion again\<close>

lemma keeps_runs_refl: "keeps_runs d d"
  by (simp add: keeps_runs_def)

lemma keeps_runs_trans: "keeps_runs a b \<Longrightarrow> keeps_runs b c \<Longrightarrow> keeps_runs a c"
  by (auto simp: keeps_runs_def)

lemma keeps_runs_exists: "keeps_runs d d' \<Longrightarrow> run_exists d rid \<Longrightarrow> run_exists d' rid"
  by (auto simp: keeps_runs_def run_exists_def)

lemma ingest_transaction_commits:
  assumes "ingest_transaction False d f rid = Inr d'"
  shows "\<exists>data row. json_load (content f) = Inr (Some data) \<and>
           r_run_id row = dict_get (rp_run_id data) \<and> runs d' = runs d @ [row]"
proof -
  from assms obtain c' r where ok: "ingest_single_report (get_db d) f = Inr (c', r)"
    and d': "d' = work c'"
    unfolding ingest_transaction_def Let_def
    by (auto split: sum.splits prod.splits simp: release_def commit_def)
  from ingest_single_report_writes [OF ok] obtain data row where
    "json_load (content f) = Inr (Some data)" "r = dict_get (rp_run_id data)"
    "run_row_of (clock f) r data = Inr row" "runs (work c') = runs (work (get_db d)) @ [row]"
    by blast
  then show ?thesis using d' run_row_of_run_id [of "clock f" r data row]
    by (auto simp: get_db_def)
qed

text \<open>The cases of one turn of the loop without force.\<close>

lemma outcome_step_cases:
  obtains (failed) "parse_failure f \<or> missing_run_id f"
  | (known) data rid where "json_load (content f) = Inr (Some data)"
      "dict_get (rp_run_id data) = Some rid" "rid \<noteq> []"
proof (cases "json_load (content f)")
  case (Inl e)
  then have "parse_failure f" by (simp add: parse_failure_def)
  then show ?thesis by (simp add: failed)
next
  case (Inr doc)
  show ?thesis
  proof (cases doc)
    case None
    with Inr have "parse_failure f" by (simp add: parse_failure_def)
    then show ?thesis by (simp add: failed)
  next
    case (Some data)
    show ?thesis
    proof (cases "truthy (dict_get (rp_run_id data))")
      case False
      with Inr Some have "missing_run_id f" by (simp add: missing_run_id_def)
      then show ?thesis by (simp add: failed)
    next
      case True
      then obtain rid where "dict_get (rp_run_id data) = Some rid" "rid \<noteq> []"
        by (cases "dict_get (rp_run_id data)") auto
      with Inr Some show ?thesis by (simp add: known)
    qed
  qed
qed

lemma outcome_step_known:
  assumes "json_load (content f) = Inr (Some data)"
    and "dict_get (rp_run_id data) = Some rid" and "rid \<noteq> []"
  shows "outcome_step False d f =
           (if run_exists d rid then (Skipped, d)
            else case ingest_transaction False d f rid of
                   Inl (e, d') \<Rightarrow> (Error, d')
                 | Inr d' \<Rightarrow> (Ingested, d'))"
  using assms
  by (simp add: outcome_step_def try_file_def Let_def split: sum.splits prod.splits)

lemma outcome_step_keeps_runs: "keeps_runs d (snd (outcome_step False d f))"
proof (cases f rule: outcome_step_cases)
  case failed
  then show ?thesis using failure_outcome [of f False d] by (auto simp: keeps_runs_refl)
next
  case (known data rid)
  show ?thesis
  proof (cases "run_exists d rid")
    case True
    then show ?thesis by (simp add: outcome_step_known [OF known] keeps_runs_refl)
  next
    case False
    show ?thesis
    proof (cases "ingest_transaction False d f rid")
      case (Inl ed)
      then have "snd ed = d" using ingest_transaction_atomic [of False d f rid "fst ed" "snd ed"]
        by simp
      with Inl False show ?thesis
        by (simp add: outcome_step_known [OF known] keeps_runs_refl case_prod_beta)
    next
      case (Inr d')
      from ingest_transaction_commits [OF Inr] obtain row where "runs d' = runs d @ [row]"
        by blast
      with Inr False show ?thesis
        by (auto simp: outcome_step_known [OF known] keeps_runs_def)
    qed
  qed
qed

lemma store_after_keeps_runs: "keeps_runs d (store_after False d fs)"
proof (induction fs arbitrary: d)
  case Nil
  show ?case by (simp add: keeps_runs_refl)
next
  case (Cons f fs)
  show ?case
    using keeps_runs_trans [OF outcome_step_keeps_runs [of d f] Cons.IH] by simp
qed

lemma isl_ingest_transaction_alike:
  assumes "content f' = content f"
    and "json_load (content f) = Inr (Some data)"
    and "dict_get (rp_run_id data) = Some rid"
    and "\<not> run_exists d rid" and "\<not> run_exists d' rid"
  shows "isl (ingest_transaction False d f rid) = isl (ingest_transaction False d' f' rid)"
proof -
  have "isl (ingest_single_report (get_db d) f) = isl (ingest_single_report (get_db d') f')"
    using assms by (intro ingest_single_report_raises_alike) (simp_all add: get_db_def)
  then show ?thesis
    unfolding ingest_transaction_def Let_def
    by (cases "ingest_single_report (get_db d) f"; cases "ingest_single_report (get_db d') f'")
       (simp_all add: case_prod_beta)
qed

lemma failure_by_content:
  "content f' = content f \<Longrightarrow> parse_failure f' = parse_failure f"
  "content f' = content f \<Longrightarrow> missing_run_id f' = missing_run_id f"
  by (simp_all add: parse_failure_def missing_run_id_def)

text \<open>Once a file has been processed, in every store that keeps the runs of the
  store it left a file of the same content is skipped, or it fails as the file
  did.\<close>

lemma settled:
  assumes same: "content f' = content f"
    and keeps: "keeps_runs (snd (outcome_step False s f)) s'"
  shows "outcome_step False s' f' = (Skipped, s') \<or>
         (fst (outcome_step False s f) = Error \<and> outcome_step False s' f' = (Error, s'))"
proof (cases f rule: outcome_step_cases)
  case failed
  then have "parse_failure f' \<or> missing_run_id f'" using failure_by_content [OF same] by simp
  with failed show ?thesis using failure_outcome [of f False s] failure_outcome [of f' False s']
    by auto
next
  case (known data rid)
  from known(1) same have data': "json_load (content f') = Inr (Some data)" by simp
  note step = outcome_step_known [OF known]
  note step' = outcome_step_known [OF data' known(2,3)]
  show ?thesis
  proof (cases "run_exists s rid")
    case True
    with keeps have "run_exists s' rid" by (auto simp: step dest: keeps_runs_exists)
    then show ?thesis by (simp add: step')
  next
    case False
    show ?thesis
    proof (cases "ingest_transaction False s f rid")
      case (Inr d')
      from ingest_transaction_commits [OF Inr] known(1,2) have "run_exists d' rid"
        by (auto simp: run_exists_def)
      moreover from keeps Inr False have "keeps_runs d' s'" by (simp add: step)
      ultimately have "run_exists s' rid" by (auto dest: keeps_runs_exists)
      then show ?thesis by (simp add: step')
    next
      case (Inl ed)
      then have first: "fst (outcome_step False s f) = Error"
        using False by (simp add: step case_prod_beta)
      show ?thesis
      proof (cases "run_exists s' rid")
        case True
        then show ?thesis by (simp add: step')
      next
        case nex: False
        have "isl (ingest_transaction False s' f' rid)"
          using isl_ingest_transaction_alike [OF same known(1,2) False nex] Inl by simp
        then obtain e d'' where t: "ingest_transaction False s' f' rid = Inl (e, d'')"
          by (cases "ingest_transaction False s' f' rid") auto
        then have "d'' = s'" by (rule ingest_transaction_atomic)
        with t nex first show ?thesis by (simp add: step')
      qed
    qed
  qed
qed

lemma first_run_settles:
  "map content fs' = map content fs \<Longrightarrow> keeps_runs (store_after False s fs) s' \<Longrightarrow>
   list_all2
     (\<lambda>o1 f'. outcome_step False s' f' = (Skipped, s') \<or>
              (o1 = Error \<and> outcome_step False s' f' = (Error, s')))
     (outcomes False s fs) fs'"
proof (induction fs arbitrary: s fs')
  case Nil
  then show ?case by simp
next
  case (Cons f fs)
  from Cons.prems(1) obtain f' fs'' where fs': "fs' = f' # fs''"
    and same: "content f' = content f" and rest: "map content fs'' = map content fs"
    by (cases fs') auto
  let ?s1 = "snd (outcome_step False s f)"
  from Cons.prems(2) have k: "keeps_runs (store_after False ?s1 fs) s'" by simp
  have "keeps_runs ?s1 s'"
    by (rule keeps_runs_trans [OF store_after_keeps_runs k])
  with same have "outcome_step False s' f' = (Skipped, s') \<or>
         (fst (outcome_step False s f) = Error \<and> outcome_step False s' f' = (Error, s'))"
    by (rule settled)
  with Cons.IH [OF rest k] show ?case by (simp add: fs')
qed

lemma second_run_changes_nothing:
  "list_all (\<lambda>f. snd (outcome_step False s' f) = s') fs \<Longrightarrow>
   store_after False s' fs = s' \<and>
   outcomes False s' fs = map (\<lambda>f. fst (outcome_step False s' f)) fs"
  by (induction fs) simp_all

lemma list_all2_right:
  "list_all2 P xs ys \<Longrightarrow> (\<And>x y. P x y \<Longrightarrow> Q y) \<Longrightarrow> list_all Q ys"
  by (induction rule: list_all2_induct) simp_all

lemma skip_known_run:
  assumes "json_load (content f) = Inr (Some data)"
    and "dict_get (rp_run_id data) = Some rid" and "rid \<noteq> []" and "run_exists s rid"
  shows "process_file False (r, s) f = (r\<lparr>skipped := skipped r + 1\<rparr>, s)"
  using assms(4) by (simp add: process_file_outcome outcome_step_known [OF assms(1-3)])

text \<open>
  Claim C1. Without force, a file whose run is already in the store is counted as
  skipped and the store stays as it is. Hence, when \<^verbatim>\<open>ingest_reports\<close> is run
  without force a second time over files of the same content, from the store the
  first run left: the store does not change, nothing is ingested, and every file
  that the first run ingested (or skipped) is skipped. (A file that failed in the
  first run fails again or is skipped.)
\<close>

theorem second_run_skips_what_the_first_ingested:
  assumes "d1 = snd (ingest_reports False (Some report_files) d)"
    and "map content again = map content report_files"
  shows "(\<forall>f data rid r s.
            json_load (content f) = Inr (Some data) \<and> dict_get (rp_run_id data) = Some rid \<and>
            rid \<noteq> [] \<and> run_exists s rid
            \<longrightarrow> process_file False (r, s) f = (r\<lparr>skipped := skipped r + 1\<rparr>, s)) \<and>
         snd (ingest_reports False (Some again) d1) = d1 \<and>
         ingested (fst (ingest_reports False (Some again) d1)) = 0 \<and>
         list_all2 (\<lambda>o1 o2. o2 \<noteq> Ingested \<and> (o1 \<noteq> Error \<longrightarrow> o2 = Skipped))
           (outcomes False d report_files) (outcomes False d1 again)"
proof -
  let ?P = "\<lambda>o1 f. outcome_step False d1 f = (Skipped, d1) \<or>
             (o1 = Error \<and> outcome_step False d1 f = (Error, d1))"
  let ?Q = "\<lambda>o1 o2. o2 \<noteq> Ingested \<and> (o1 \<noteq> Error \<longrightarrow> o2 = Skipped)"
  have d1: "d1 = store_after False d report_files"
    using assms(1) by (simp add: snd_ingest_reports)
  have "keeps_runs (store_after False d report_files) d1"
    unfolding d1 by (rule keeps_runs_refl)
  with assms(2) have first: "list_all2 ?P (outcomes False d report_files) again"
    by (rule first_run_settles)
  have "list_all (\<lambda>f. snd (outcome_step False d1 f) = d1) again"
    by (rule list_all2_right [OF first]) auto
  then have second: "store_after False d1 again = d1"
    "outcomes False d1 again = map (\<lambda>f. fst (outcome_step False d1 f)) again"
    using second_run_changes_nothing [of d1 again] by simp_all
  have "list_all2 (\<lambda>o1 f. ?Q o1 (fst (outcome_step False d1 f)))
          (outcomes False d report_files) again"
    by (rule list_all2_mono [OF first]) auto
  then have rel: "list_all2 ?Q (outcomes False d report_files) (outcomes False d1 again)"
    unfolding second(2) by (simp add: list_all2_map2)
  have "list_all (\<lambda>o2. o2 \<noteq> Ingested) (outcomes False d1 again)"
    by (rule list_all2_right [OF rel]) simp
  then have "Ingested \<notin> set (outcomes False d1 again)"
    by (auto simp: list_all_iff)
  then have none: "ingested (fst (ingest_reports False (Some again) d1)) = 0"
    by (simp add: fst_ingest_reports foldl_count_outcome)
  have same: "snd (ingest_reports False (Some again) d1) = d1"
    by (simp add: snd_ingest_reports second(1))
  have one: "\<forall>f data rid r s.
            json_load (content f) = Inr (Some data) \<and> dict_get (rp_run_id data) = Some rid \<and>
            rid \<noteq> [] \<and> run_exists s rid
            \<longrightarrow> process_file False (r, s) f = (r\<lparr>skipped := skipped r + 1\<rparr>, s)"
    using skip_known_run by blast
  from one same none rel show ?thesis by (intro conjI)
qed

theorem second_run_witness:
  "ingest_reports False (Some [example_file\<lparr>clock := ''t9''\<rparr>])
     (snd (ingest_reports False (Some [example_file]) empty_db))
   = (\<lparr>ingested = 0, skipped = 1, errors = 0\<rparr>,
      snd (ingest_reports False (Some [example_file]) empty_db))"
proof -
  let ?d1 = "snd (ingest_reports False (Some [example_file]) empty_db)"
  let ?again = "[example_file\<lparr>clock := ''t9''\<rparr>]"
  have c: "map content ?again = map content [example_file]" by simp
  note t = second_run_skips_what_the_first_ingested
    [where report_files = "[example_file]" and d = empty_db and ?d1.0 = ?d1
       and again = ?again, OF refl c]
  have first: "outcomes False empty_db [example_file] = [Ingested]"
    by (simp add: outcome_step_def try_file_def eval_defs)
  from t have "list_all2 (\<lambda>o1 o2. o2 \<noteq> Ingested \<and> (o1 \<noteq> Error \<longrightarrow> o2 = Skipped))
           (outcomes False empty_db [example_file]) (outcomes False ?d1 ?again)"
    by blast
  then have second: "outcomes False ?d1 ?again = [Skipped]"
    unfolding first by (auto simp: list_all2_Cons1)
  have "fst (ingest_reports False (Some ?again) ?d1)
        = \<lparr>ingested = 0, skipped = 1, errors = 0\<rparr>"
    unfolding fst_ingest_reports second by simp
  moreover from t have "snd (ingest_reports False (Some ?again) ?d1) = ?d1"
    by blast
  ultimately show ?thesis by (simp add: prod_eq_iff)
qed

section \<open>Aggregations over the store\<close>

lemma example_step_is_ingested:
  "steps (snd (ingest_reports False (Some [example_file]) empty_db)) ! 0 = example_step"
  by (simp add: ingest_reports_def process_file_def try_file_def eval_defs example_step_def)

lemma example_failure_is_ingested:
  "failures (snd (ingest_reports False (Some [example_file]) empty_db)) = [example_failure]"
  by (simp add: ingest_reports_def process_file_def try_file_def eval_defs example_failure_def)

lemma UPPER_PASS: "UPPER ''PASS'' = ''PASS''"
  by (simp add: UPPER_def upper_char_def char_of_def bit_0)

lemma UPPER_fail: "UPPER ''fail'' = ''FAIL''"
  by (simp add: UPPER_def upper_char_def char_of_def bit_0)

text \<open>
  Claim C6, evaluated where the code departs from it. One step that was retried
  and passed, with two recorded failures of the category \<^verbatim>\<open>timeout\<close>: the query
  counts the step once in \<^verbatim>\<open>total\<close> (\<^verbatim>\<open>COUNT(DISTINCT s.id)\<close>) and twice in
  \<^verbatim>\<open>self_corrected\<close> (a \<^verbatim>\<open>SUM\<close> over the joined rows, one per failure), so the
  rate is 2 and not the fraction 1 of the steps that passed.
\<close>

theorem self_correction_counts_failures_not_steps:
  "self_correction
     \<lparr>runs = [], steps = [example_step], failures = [example_failure, example_failure],
      web_searches = []\<rparr>
   = [\<lparr>sc_category = ''timeout'', sc_total = 1, sc_self_corrected = 2, sc_failed = 0,
       sc_rate = 2\<rparr>]"
  by (simp add: self_correction_def self_correction_join_def self_correction_group_def
        example_step_def example_failure_def UPPER_def upper_char_def char_of_def bit_0 Let_def)

text \<open>With one failure per step the query gives the fraction of the claim:
  four retried steps, three of them passed (in either case of the letters).\<close>

lemma self_correction_one_failure_per_step:
  "self_correction
     \<lparr>runs = [],
      steps = [example_step,
               example_step\<lparr>s_id := Some ''r1_2'', s_step_number := Some 2\<rparr>,
               example_step\<lparr>s_id := Some ''r1_3'', s_step_number := Some 3,
                             s_final_verdict := Some ''proceed''\<rparr>,
               example_step\<lparr>s_id := Some ''r1_4'', s_step_number := Some 4,
                             s_final_verdict := Some ''FAIL''\<rparr>],
      failures = [example_failure,
                  example_failure\<lparr>f_step_number := Some 2\<rparr>,
                  example_failure\<lparr>f_step_number := Some 3\<rparr>,
                  example_failure\<lparr>f_step_number := Some 4\<rparr>],
      web_searches = []\<rparr>
   = [\<lparr>sc_category = ''timeout'', sc_total = 4, sc_self_corrected = 3, sc_failed = 1,
       sc_rate = 3 / 4\<rparr>]"
  by (simp add: self_correction_def self_correction_join_def self_correction_group_def
        example_step_def example_failure_def UPPER_def upper_char_def char_of_def bit_0 Let_def)

text \<open>
  Claim C9, evaluated where the code departs from it. Two steps, one with the
  classification \<^verbatim>\<open>NULL\<close> and one with the empty string, form the two groups
  \<^verbatim>\<open>'pending'\<close> and \<^verbatim>\<open>''\<close>. The loop reads both labels as \<^verbatim>\<open>pending\<close>
  (\<^verbatim>\<open>row[0] or "pending"\<close>) and stores the count of each group in the bucket, the
  second over the first, in whichever order the groups come: the buckets add up
  to 1 for 2 steps.
\<close>

theorem stats_pending_bucket_overwritten:
  "stats_total_steps
     \<lparr>runs = [], steps = [example_step, example_step\<lparr>s_classification := Some ''''\<rparr>],
      failures = [], web_searches = []\<rparr> = 2 \<and>
   classification_rows
     \<lparr>runs = [], steps = [example_step, example_step\<lparr>s_classification := Some ''''\<rparr>],
      failures = [], web_searches = []\<rparr> = [(''pending'', 1), ('''', 1)] \<and>
   bucket_sum (stats_classification_counts
     \<lparr>runs = [], steps = [example_step, example_step\<lparr>s_classification := Some ''''\<rparr>],
      failures = [], web_searches = []\<rparr>) = 1 \<and>
   bucket_sum (foldl classification_step initial_classification_counts
     [('''', 1), (''pending'', 1)]) = 1"
  by (simp add: stats_total_steps_def classification_rows_def stats_classification_counts_def
        bucket_sum_def classification_step_def initial_classification_counts_def
        Counter_def example_step_def lower_def lower_char_def char_of_def bit_0 Let_def)

end
